theory Spec2Isabelle
  imports Main "HOL-Library.Word"
begin

unbundle bit_operations_syntax

section \<open>Data model\<close>

text \<open>
  The scheduler of \<^verbatim>\<open>timeline_semaphore_main.cpp\<close> works on unsigned machine integers:
  timeline values are \<^verbatim>\<open>uint64_t\<close>, batch arithmetic and the ring cursor are
  \<^verbatim>\<open>uint32_t\<close>. Vulkan handles are opaque; the model names them by natural numbers.
\<close>

type_synonym u32 = "32 word"
type_synonym u64 = "64 word"
type_synonym VkCommandBuffer = nat
type_synonym VkShaderModule = nat

text \<open>A compute pipeline is known by the shader module it was created from.\<close>

datatype VkPipeline = ComputePipeline VkShaderModule

text \<open>\<^verbatim>\<open>mcubes_chunk.hpp\<close>: the two macros and the one field of \<^verbatim>\<open>McubesChunk\<close>
  that the host code reads and writes (the other members are Vulkan handles fixed at start-up).\<close>

definition MCUBES_MAX_CHUNKS_PER_BATCH :: u32 where
  "MCUBES_MAX_CHUNKS_PER_BATCH = 6"

definition MCUBES_CHUNK_COUNT :: u32 where
  "MCUBES_CHUNK_COUNT = 12"

record McubesChunk =
  timelineValue :: u64

text \<open>The members of \<^verbatim>\<open>Gui\<close> that \<^verbatim>\<open>main\<close> and the two schedulers read after
  \<^verbatim>\<open>doFrame\<close>. \<^verbatim>\<open>getMcubesJobs\<close> is the job list the GUI hands out for the frame; the
  job descriptors themselves (\<^verbatim>\<open>McubesParams\<close>, vectors of floats) are opaque to the
  scheduler and stay a type parameter.\<close>

record 'p Gui =
  m_wantComputeQueue :: bool
  m_compileFailure :: bool
  m_wantSetEquation :: bool
  m_equationInput :: string
  m_batchSize :: int
  getMcubesJobs :: "'p list"

text \<open>The file-level variables of \<^verbatim>\<open>timeline_semaphore_main.cpp\<close> and \<^verbatim>\<open>compute.cpp\<close>
  that the schedulers touch. The two-element arrays are indexed by \<^verbatim>\<open>g_frameNumber & 1u\<close>.
  \<^verbatim>\<open>vkAllocatedCommandBuffers\<close> counts the command buffers the device has handed out, so that
  \<^verbatim>\<open>vkAllocateCommandBuffers\<close> returns a fresh handle.\<close>

record Statics =
  g_frameNumber :: u64
  s_frameComputePoolWaitTimelineValues :: "u64 list"
  s_frameGraphicsPoolWaitTimelineValues :: "u64 list"
  s_frameComputeCmdBufs :: "VkCommandBuffer list list"
  s_frameGraphicsCmdBufs :: "VkCommandBuffer list list"
  s_upcomingTimelineValue :: u64
  s_mcubesChunkIndex :: u32
  s_useComputeQueue :: bool
  g_mcubesChunkArray :: "McubesChunk list"
  s_mcubesImagePipeline :: VkPipeline
  vkAllocatedCommandBuffers :: nat

text \<open>What one batch hands to the device in dual-queue mode: the two command buffers with
  what was recorded into them, and the wait and signal values of the two
  \<^verbatim>\<open>vkQueueSubmit\<close> calls. \<^verbatim>\<open>chunkPointerArray\<close> holds pointers into
  \<^verbatim>\<open>g_mcubesChunkArray\<close>; the model keeps the array indices.\<close>

record 'p TwoQueuesSubmit =
  tq_computeCmdBuf :: VkCommandBuffer
  tq_graphicsCmdBuf :: VkCommandBuffer
  tq_prepareFrame :: bool
  tq_chunkPointerArray :: "nat list"
  tq_params :: "'p list"
  tq_pipeline :: VkPipeline
  tq_drawImGui :: bool
  tq_computeWaitTimelineValue :: u64
  tq_computeSignalTimelineValue :: u64
  tq_graphicsWaitTimelineValue :: u64
  tq_graphicsSignalTimelineValue :: u64

text \<open>The same for the single-queue path: one command buffer, no timeline values, and the
  fence on the last batch.\<close>

record 'p GctSubmit =
  gct_cmdBuf :: VkCommandBuffer
  gct_prepareFrame :: bool
  gct_chunkPointerArray :: "nat list"
  gct_params :: "'p list"
  gct_pipeline :: VkPipeline
  gct_drawImGui :: bool
  gct_signalFence :: bool

text \<open>Failed assertions abort the program; undefined behaviour (a division by zero, a write
  past the end of \<^verbatim>\<open>chunkPointerArray\<close>, a read of an entry of it that was never
  set) is reported the same way, so that its absence is a property of the model.\<close>

datatype error =
    CircularDependencyAssert
  | BatchSizeAssert
  | FillChunkBatchCountAssert
  | DivisionByZero
  | ChunkPointerArrayOverflow
  | UninitializedChunkPointer

section \<open>Batch arithmetic shared by the two schedulers\<close>

text \<open>\<^verbatim>\<open>glm::clamp<uint32_t>(x, minVal, maxVal)\<close> is \<^verbatim>\<open>min(max(x, minVal), maxVal)\<close>.\<close>

definition clamp_u32 :: "u32 \<Rightarrow> u32 \<Rightarrow> u32 \<Rightarrow> u32" where
  "clamp_u32 x minVal maxVal = min (max x minVal) maxVal"

text \<open>\<^verbatim>\<open>glm::clamp<uint32_t>(pGui->m_batchSize, 1u, MCUBES_MAX_CHUNKS_PER_BATCH)\<close>: the
  \<^verbatim>\<open>int\<close> is converted to \<^verbatim>\<open>uint32_t\<close> first (modulo \<open>2^32\<close>).\<close>

definition batchSizeOf :: "int \<Rightarrow> u32" where
  "batchSizeOf m = clamp_u32 (word_of_int m) 1 MCUBES_MAX_CHUNKS_PER_BATCH"

text \<open>\<^verbatim>\<open>uint32_t(paramsList.size() + batchSize - 1u) / batchSize\<close>: the sum is computed in
  \<^verbatim>\<open>size_t\<close> and truncated to 32 bits before the division.\<close>

definition batchCountOf :: "nat \<Rightarrow> u32 \<Rightarrow> u32" where
  "batchCountOf listSize batchSize =
     (ucast ((word_of_nat listSize :: u64) + ucast batchSize - 1) :: u32) div batchSize"

definition batchStartOf :: "u32 \<Rightarrow> u32 \<Rightarrow> u32" where
  "batchStartOf batch batchSize = batch * batchSize"

text \<open>\<^verbatim>\<open>std::min(batchStart + batchSize, uint32_t(paramsList.size()))\<close>\<close>

definition batchEndOf :: "u32 \<Rightarrow> u32 \<Rightarrow> nat \<Rightarrow> u32" where
  "batchEndOf batchStart batchSize listSize =
     min (batchStart + batchSize) (word_of_nat listSize)"

text \<open>The three inner loops run \<^verbatim>\<open>paramIndex\<close> from \<^verbatim>\<open>batchStart\<close> while it is below
  \<^verbatim>\<open>batchEnd\<close>: this many iterations (none when \<^verbatim>\<open>batchEnd <= batchStart\<close>).\<close>

definition batchIterations :: "u32 \<Rightarrow> u32 \<Rightarrow> nat" where
  "batchIterations batchStart batchEnd = unat batchEnd - unat batchStart"

text \<open>The ring-buffer step: \<^verbatim>\<open>++s_mcubesChunkIndex; if(s_mcubesChunkIndex >= MCUBES_CHUNK_COUNT)
  s_mcubesChunkIndex = 0;\<close>\<close>

definition nextChunkIndex :: "u32 \<Rightarrow> u32" where
  "nextChunkIndex i = (let j = i + 1 in if j \<ge> MCUBES_CHUNK_COUNT then 0 else j)"

text \<open>The selection loop: one ring-buffer step per job of the batch, the chunk selected at
  each step stored in \<^verbatim>\<open>chunkPointerArray[localIndex]\<close>. Returns the cursor after the loop
  and the array.\<close>

fun selectChunks :: "nat \<Rightarrow> u32 \<Rightarrow> u32 \<times> nat list" where
  "selectChunks 0 i = (i, [])"
| "selectChunks (Suc n) i =
     (let j = nextChunkIndex i; (k, ps) = selectChunks n j in (k, unat j # ps))"

text \<open>\<^verbatim>\<open>computeCmdFillChunkBatch\<close> and \<^verbatim>\<open>graphicsCmdDrawMcubesGeometryBatch\<close> receive
  \<^verbatim>\<open>count = batchEnd - batchStart\<close> (in \<^verbatim>\<open>uint32_t\<close>), \<^verbatim>\<open>chunkPointerArray\<close> and
  \<^verbatim>\<open>&paramsList[batchStart]\<close>. The first asserts
  \<^verbatim>\<open>count <= MCUBES_MAX_CHUNKS_PER_BATCH\<close>; both read \<^verbatim>\<open>count\<close> chunk pointers, of which
  the selection loop has set \<^verbatim>\<open>iterations\<close>.\<close>

definition checkBatchCount :: "u32 \<Rightarrow> nat \<Rightarrow> error option" where
  "checkBatchCount count iterations =
     (if count > MCUBES_MAX_CHUNKS_PER_BATCH then Some FillChunkBatchCountAssert
      else if unat count \<noteq> iterations then Some UninitializedChunkPointer
      else None)"

text \<open>\<^verbatim>\<open>&paramsList[batchStart]\<close> with \<^verbatim>\<open>batchEnd - batchStart\<close> entries.\<close>

definition batchParams :: "'p list \<Rightarrow> u32 \<Rightarrow> u32 \<Rightarrow> 'p list" where
  "batchParams paramsList batchStart batchEnd =
     map (\<lambda>i. paramsList ! i) [unat batchStart..<unat batchEnd]"

text \<open>Allocate or recycle the command buffer at position \<^verbatim>\<open>nextCmdBufIndex\<close> of a frame's
  list. Returns the buffer, the list and the device's allocation count.\<close>

definition acquireCmdBuf ::
  "VkCommandBuffer list \<Rightarrow> u32 \<Rightarrow> nat \<Rightarrow> VkCommandBuffer \<times> VkCommandBuffer list \<times> nat" where
  "acquireCmdBuf bufs nextCmdBufIndex allocated =
     (if unat nextCmdBufIndex < length bufs then (bufs ! unat nextCmdBufIndex, bufs, allocated)
      else (allocated, bufs @ [allocated], Suc allocated))"

section \<open>The dual-queue scheduler\<close>

text \<open>\<^verbatim>\<open>computeWaitTimelineValue = std::max(computeWaitTimelineValue,
  chunkPointerArray[localIndex]->timelineValue)\<close> over the batch.\<close>

definition accumulateWait :: "McubesChunk list \<Rightarrow> nat list \<Rightarrow> u64 \<Rightarrow> u64" where
  "accumulateWait chunkArray ptrs w =
     fold (\<lambda>i acc. max acc (timelineValue (chunkArray ! i))) ptrs w"

text \<open>\<^verbatim>\<open>chunkPointerArray[localIndex]->timelineValue = s_upcomingTimelineValue\<close> over the
  batch.\<close>

definition recordTimeline :: "nat list \<Rightarrow> u64 \<Rightarrow> McubesChunk list \<Rightarrow> McubesChunk list" where
  "recordTimeline ptrs v chunkArray =
     fold (\<lambda>i arr. arr[i := (arr ! i)\<lparr>timelineValue := v\<rparr>]) ptrs chunkArray"

text \<open>The variables of \<^verbatim>\<open>computeDrawCommandsTwoQueues\<close> that live across batches, with the
  statics. \<^verbatim>\<open>computeWaitTimelineValue\<close> is declared before the batch loop and never
  reset inside it.\<close>

record TwoQueuesLoop =
  tql_statics :: Statics
  tql_nextCmdBufIndex :: u32
  tql_computeWaitTimelineValue :: u64

text \<open>The body of the batch loop of \<^verbatim>\<open>computeDrawCommandsTwoQueues\<close>: the variables after
  the batch, and what the batch submitted.\<close>

definition twoQueuesBatch ::
  "'p list \<Rightarrow> u32 \<Rightarrow> u32 \<Rightarrow> u32 \<Rightarrow> TwoQueuesLoop \<Rightarrow>
     error + (TwoQueuesLoop \<times> 'p TwoQueuesSubmit)" where
  "twoQueuesBatch paramsList batchSize batchCount batch st =
     (let s = tql_statics st;
          frame = unat (g_frameNumber s AND 1);
          (batchComputeCmdBuf, computeBufs, allocated1) =
             acquireCmdBuf (s_frameComputeCmdBufs s ! frame) (tql_nextCmdBufIndex st)
               (vkAllocatedCommandBuffers s);
          (batchGraphicsCmdBuf, graphicsBufs, allocated2) =
             acquireCmdBuf (s_frameGraphicsCmdBufs s ! frame) (tql_nextCmdBufIndex st) allocated1;
          batchStart = batchStartOf batch batchSize;
          batchEnd = batchEndOf batchStart batchSize (length paramsList);
          iterations = batchIterations batchStart batchEnd
      in if iterations > unat MCUBES_MAX_CHUNKS_PER_BATCH then Inl ChunkPointerArrayOverflow
         else
           let (chunkIndex, chunkPointerArray) = selectChunks iterations (s_mcubesChunkIndex s);
               computeWaitTimelineValue =
                 accumulateWait (g_mcubesChunkArray s) chunkPointerArray
                   (tql_computeWaitTimelineValue st)
           in case checkBatchCount (batchEnd - batchStart) iterations of
                Some e \<Rightarrow> Inl e
              | None \<Rightarrow>
                let chunkArray =
                      recordTimeline chunkPointerArray (s_upcomingTimelineValue s)
                        (g_mcubesChunkArray s)
                in if \<not> computeWaitTimelineValue < s_upcomingTimelineValue s
                   then Inl CircularDependencyAssert
                   else
                     let computeSignalTimelineValue = s_upcomingTimelineValue s;
                         graphicsWaitTimelineValue = s_upcomingTimelineValue s;
                         graphicsSignalTimelineValue = s_upcomingTimelineValue s;
                         lastBatch = (batch = batchCount - 1);
                         submit = \<lparr> tq_computeCmdBuf = batchComputeCmdBuf,
                                    tq_graphicsCmdBuf = batchGraphicsCmdBuf,
                                    tq_prepareFrame = (batch = 0),
                                    tq_chunkPointerArray = chunkPointerArray,
                                    tq_params = batchParams paramsList batchStart batchEnd,
                                    tq_pipeline = s_mcubesImagePipeline s,
                                    tq_drawImGui = lastBatch,
                                    tq_computeWaitTimelineValue = computeWaitTimelineValue,
                                    tq_computeSignalTimelineValue = computeSignalTimelineValue,
                                    tq_graphicsWaitTimelineValue = graphicsWaitTimelineValue,
                                    tq_graphicsSignalTimelineValue = graphicsSignalTimelineValue \<rparr>;
                         s' = s\<lparr> s_frameComputeCmdBufs := (s_frameComputeCmdBufs s)[frame := computeBufs],
                                 s_frameGraphicsCmdBufs := (s_frameGraphicsCmdBufs s)[frame := graphicsBufs],
                                 vkAllocatedCommandBuffers := allocated2,
                                 s_mcubesChunkIndex := chunkIndex,
                                 g_mcubesChunkArray := chunkArray,
                                 s_frameComputePoolWaitTimelineValues :=
                                   (if lastBatch
                                    then (s_frameComputePoolWaitTimelineValues s)
                                           [frame := computeSignalTimelineValue]
                                    else s_frameComputePoolWaitTimelineValues s),
                                 s_frameGraphicsPoolWaitTimelineValues :=
                                   (if lastBatch
                                    then (s_frameGraphicsPoolWaitTimelineValues s)
                                           [frame := graphicsSignalTimelineValue]
                                    else s_frameGraphicsPoolWaitTimelineValues s),
                                 s_upcomingTimelineValue := s_upcomingTimelineValue s + 1 \<rparr>
                     in Inr (\<lparr> tql_statics = s',
                               tql_nextCmdBufIndex = tql_nextCmdBufIndex st + 1,
                               tql_computeWaitTimelineValue = computeWaitTimelineValue \<rparr>,
                             submit))"

text \<open>\<^verbatim>\<open>for(uint32_t batch = 0; batch < batchCount; ++batch)\<close>, stopping at the first failed
  assertion.\<close>

fun twoQueuesBatches ::
  "'p list \<Rightarrow> u32 \<Rightarrow> u32 \<Rightarrow> u32 list \<Rightarrow> TwoQueuesLoop \<Rightarrow>
     error + (TwoQueuesLoop \<times> 'p TwoQueuesSubmit list)" where
  "twoQueuesBatches paramsList batchSize batchCount [] st = Inr (st, [])"
| "twoQueuesBatches paramsList batchSize batchCount (batch # rest) st =
     (case twoQueuesBatch paramsList batchSize batchCount batch st of
        Inl e \<Rightarrow> Inl e
      | Inr (st', submit) \<Rightarrow>
          (case twoQueuesBatches paramsList batchSize batchCount rest st' of
             Inl e \<Rightarrow> Inl e
           | Inr (st'', submits) \<Rightarrow> Inr (st'', submit # submits)))"

text \<open>The values \<^verbatim>\<open>batch\<close> takes in the loop.\<close>

definition batchNumbers :: "u32 \<Rightarrow> u32 list" where
  "batchNumbers batchCount = map word_of_nat [0..<unat batchCount]"

definition computeDrawCommandsTwoQueues ::
  "'p Gui \<Rightarrow> Statics \<Rightarrow> error + (Statics \<times> 'p TwoQueuesSubmit list)" where
  "computeDrawCommandsTwoQueues pGui s =
     (let paramsList = getMcubesJobs pGui;
          batchSize = batchSizeOf (m_batchSize pGui)
      in if batchSize = 0 then Inl DivisionByZero
         else
           let batchCount = batchCountOf (length paramsList) batchSize
           in case twoQueuesBatches paramsList batchSize batchCount (batchNumbers batchCount)
                     \<lparr> tql_statics = s, tql_nextCmdBufIndex = 0,
                       tql_computeWaitTimelineValue = 0 \<rparr> of
                Inl e \<Rightarrow> Inl e
              | Inr (st, submits) \<Rightarrow> Inr (tql_statics st, submits))"

section \<open>The single-queue scheduler\<close>

record GctLoop =
  gl_statics :: Statics
  gl_nextCmdBufIndex :: u32

text \<open>The body of the batch loop of \<^verbatim>\<open>computeDrawCommandsGctOnly\<close>.\<close>

definition gctBatch ::
  "'p list \<Rightarrow> u32 \<Rightarrow> u32 \<Rightarrow> u32 \<Rightarrow> GctLoop \<Rightarrow> error + (GctLoop \<times> 'p GctSubmit)" where
  "gctBatch paramsList batchSize batchCount batch st =
     (let s = gl_statics st;
          frame = unat (g_frameNumber s AND 1);
          (gctBatchCmdBuf, graphicsBufs, allocated) =
             acquireCmdBuf (s_frameGraphicsCmdBufs s ! frame) (gl_nextCmdBufIndex st)
               (vkAllocatedCommandBuffers s);
          batchStart = batchStartOf batch batchSize;
          batchEnd = batchEndOf batchStart batchSize (length paramsList);
          iterations = batchIterations batchStart batchEnd
      in if iterations > unat MCUBES_MAX_CHUNKS_PER_BATCH then Inl ChunkPointerArrayOverflow
         else
           let (chunkIndex, chunkPointerArray) = selectChunks iterations (s_mcubesChunkIndex s)
           in case checkBatchCount (batchEnd - batchStart) iterations of
                Some e \<Rightarrow> Inl e
              | None \<Rightarrow>
                if \<not> batchSize \<le> MCUBES_CHUNK_COUNT div 2 then Inl BatchSizeAssert
                else
                  let lastBatch = (batch = batchCount - 1);
                      submit = \<lparr> gct_cmdBuf = gctBatchCmdBuf,
                                 gct_prepareFrame = (batch = 0),
                                 gct_chunkPointerArray = chunkPointerArray,
                                 gct_params = batchParams paramsList batchStart batchEnd,
                                 gct_pipeline = s_mcubesImagePipeline s,
                                 gct_drawImGui = lastBatch,
                                 gct_signalFence = lastBatch \<rparr>;
                      s' = s\<lparr> s_frameGraphicsCmdBufs := (s_frameGraphicsCmdBufs s)[frame := graphicsBufs],
                              vkAllocatedCommandBuffers := allocated,
                              s_mcubesChunkIndex := chunkIndex \<rparr>
                  in Inr (\<lparr> gl_statics = s',
                            gl_nextCmdBufIndex = gl_nextCmdBufIndex st + 1 \<rparr>,
                          submit))"

fun gctBatches ::
  "'p list \<Rightarrow> u32 \<Rightarrow> u32 \<Rightarrow> u32 list \<Rightarrow> GctLoop \<Rightarrow>
     error + (GctLoop \<times> 'p GctSubmit list)" where
  "gctBatches paramsList batchSize batchCount [] st = Inr (st, [])"
| "gctBatches paramsList batchSize batchCount (batch # rest) st =
     (case gctBatch paramsList batchSize batchCount batch st of
        Inl e \<Rightarrow> Inl e
      | Inr (st', submit) \<Rightarrow>
          (case gctBatches paramsList batchSize batchCount rest st' of
             Inl e \<Rightarrow> Inl e
           | Inr (st'', submits) \<Rightarrow> Inr (st'', submit # submits)))"

definition computeDrawCommandsGctOnly ::
  "'p Gui \<Rightarrow> Statics \<Rightarrow> error + (Statics \<times> 'p GctSubmit list)" where
  "computeDrawCommandsGctOnly pGui s =
     (let paramsList = getMcubesJobs pGui;
          batchSize = batchSizeOf (m_batchSize pGui)
      in if batchSize = 0 then Inl DivisionByZero
         else
           let batchCount = batchCountOf (length paramsList) batchSize
           in case gctBatches paramsList batchSize batchCount (batchNumbers batchCount)
                     \<lparr> gl_statics = s, gl_nextCmdBufIndex = 0 \<rparr> of
                Inl e \<Rightarrow> Inl e
              | Inr (st, submits) \<Rightarrow> Inr (gl_statics st, submits))"

section \<open>Replacing the compute kernel (compute.cpp)\<close>

text \<open>The shader compiler (\<^verbatim>\<open>nvvk::ShaderModuleManager\<close>) is a library outside the repository:
  it is a parameter, \<^verbatim>\<open>None\<close> standing for the null module it returns when the source does
  not compile. \<^verbatim>\<open>setupMcubesImagePipeline\<close> turns the newlines of the prefix into blanks,
  appends one newline and compiles; only on success does it destroy the old pipeline and
  store the new one.\<close>

definition setupMcubesImagePipeline ::
  "(string \<Rightarrow> VkShaderModule option) \<Rightarrow> string \<Rightarrow> Statics \<Rightarrow> bool \<times> Statics" where
  "setupMcubesImagePipeline createShaderModule prepend s =
     (case createShaderModule
             (map (\<lambda>c. if c = CHR 0x0A then CHR 0x20 else c) prepend @ [CHR 0x0A]) of
        None \<Rightarrow> (False, s)
      | Some module \<Rightarrow> (True, s\<lparr> s_mcubesImagePipeline := ComputePipeline module \<rparr>))"

definition computeReplaceEquation ::
  "(string \<Rightarrow> VkShaderModule option) \<Rightarrow> string \<Rightarrow> Statics \<Rightarrow> bool \<times> Statics" where
  "computeReplaceEquation createShaderModule pEquation s =
     setupMcubesImagePipeline createShaderModule
       (''#define EQUATION(x, y, z, t) '' @ pEquation) s"

section \<open>The main loop\<close>

text \<open>What one iteration of the loop of \<^verbatim>\<open>main\<close> does that the device or the caller can
  observe, in order.\<close>

datatype 'p Event =
    DeviceWaitIdle
  | ReplaceEquation string bool
  | TwoQueuesFrame "'p TwoQueuesSubmit list"
  | GctOnlyFrame "'p GctSubmit list"

text \<open>The block \<^verbatim>\<open>// Respond to GUI events\<close> of the loop, without the swap chain: a
  change of queue mode waits for the device and takes effect; a request to set the equation
  waits for the device, calls \<^verbatim>\<open>computeReplaceEquation\<close>, stores the failure flag and
  clears the request. The argument is the \<^verbatim>\<open>Gui\<close> as \<^verbatim>\<open>doFrame\<close> left it.\<close>

definition respondToGuiEvents ::
  "(string \<Rightarrow> VkShaderModule option) \<Rightarrow> 'p Gui \<Rightarrow> Statics \<Rightarrow>
     'p Event list \<times> 'p Gui \<times> Statics" where
  "respondToGuiEvents createShaderModule pGui s =
     (let (ev1, s1) =
             (if m_wantComputeQueue pGui \<noteq> s_useComputeQueue s
              then ([DeviceWaitIdle], s\<lparr> s_useComputeQueue := m_wantComputeQueue pGui \<rparr>)
              else ([], s))
      in if m_wantSetEquation pGui
         then let (success, s2) =
                    computeReplaceEquation createShaderModule (m_equationInput pGui) s1
              in (ev1 @ [DeviceWaitIdle, ReplaceEquation (m_equationInput pGui) success],
                  pGui\<lparr> m_compileFailure := \<not> success, m_wantSetEquation := False \<rparr>, s2)
         else (ev1, pGui, s1))"

text \<open>One iteration, from \<^verbatim>\<open>++g_frameNumber\<close> to the scheduler call. Window handling, the
  swap chain and \<^verbatim>\<open>submitFrame\<close> do not touch the scheduler's variables and are left
  out.\<close>

definition mainLoopIteration ::
  "(string \<Rightarrow> VkShaderModule option) \<Rightarrow> 'p Gui \<Rightarrow> Statics \<Rightarrow>
     error + ('p Gui \<times> Statics \<times> 'p Event list)" where
  "mainLoopIteration createShaderModule pGui s =
     (let (evs, pGui', s') =
            respondToGuiEvents createShaderModule pGui (s\<lparr> g_frameNumber := g_frameNumber s + 1 \<rparr>)
      in if s_useComputeQueue s'
         then (case computeDrawCommandsTwoQueues pGui' s' of
                 Inl e \<Rightarrow> Inl e
               | Inr (s'', submits) \<Rightarrow> Inr (pGui', s'', evs @ [TwoQueuesFrame submits]))
         else (case computeDrawCommandsGctOnly pGui' s' of
                 Inl e \<Rightarrow> Inl e
               | Inr (s'', submits) \<Rightarrow> Inr (pGui', s'', evs @ [GctOnlyFrame submits])))"

text \<open>The loop over the frames of a run: one \<^verbatim>\<open>Gui\<close> snapshot per frame.\<close>

fun mainLoop ::
  "(string \<Rightarrow> VkShaderModule option) \<Rightarrow> 'p Gui list \<Rightarrow> Statics \<Rightarrow>
     error + (Statics \<times> 'p Event list)" where
  "mainLoop createShaderModule [] s = Inr (s, [])"
| "mainLoop createShaderModule (pGui # rest) s =
     (case mainLoopIteration createShaderModule pGui s of
        Inl e \<Rightarrow> Inl e
      | Inr (pGui', s', evs) \<Rightarrow>
          (case mainLoop createShaderModule rest s' of
             Inl e \<Rightarrow> Inl e
           | Inr (s'', evs') \<Rightarrow> Inr (s'', evs @ evs')))"

text \<open>The variables as their initialisers and \<^verbatim>\<open>main\<close> leave them before the first
  frame: the clock at 1, the cursor at 0, every \<^verbatim>\<open>timelineValue\<close> at 0. The pipeline is the
  one \<^verbatim>\<open>setupCompute\<close> created, the queue mode is the GUI's initial choice.\<close>

definition initialStatics :: "VkPipeline \<Rightarrow> bool \<Rightarrow> Statics" where
  "initialStatics pipeline wantComputeQueue =
     \<lparr> g_frameNumber = 0,
       s_frameComputePoolWaitTimelineValues = [0, 0],
       s_frameGraphicsPoolWaitTimelineValues = [0, 0],
       s_frameComputeCmdBufs = [[], []],
       s_frameGraphicsCmdBufs = [[], []],
       s_upcomingTimelineValue = 1,
       s_mcubesChunkIndex = 0,
       s_useComputeQueue = wantComputeQueue,
       g_mcubesChunkArray = replicate (unat MCUBES_CHUNK_COUNT) \<lparr> timelineValue = 0 \<rparr>,
       s_mcubesImagePipeline = pipeline,
       vkAllocatedCommandBuffers = 3 \<rparr>"


section \<open>Notions used in the statements\<close>

text \<open>The number of iterations of the inner loops of batch number \<open>batch\<close>, and the jobs
  the batch is handed.\<close>

definition batchIterationsOf :: "'p list \<Rightarrow> u32 \<Rightarrow> u32 \<Rightarrow> nat" where
  "batchIterationsOf paramsList batchSize batch =
     batchIterations (batchStartOf batch batchSize)
       (batchEndOf (batchStartOf batch batchSize) batchSize (length paramsList))"

definition batchParamsOf :: "'p list \<Rightarrow> u32 \<Rightarrow> u32 \<Rightarrow> 'p list" where
  "batchParamsOf paramsList batchSize batch =
     batchParams paramsList (batchStartOf batch batchSize)
       (batchEndOf (batchStartOf batch batchSize) batchSize (length paramsList))"

text \<open>Round robin: the \<open>n\<close> slots that follow slot \<open>i\<close> in the ring of 12.\<close>

definition ringSlots :: "nat \<Rightarrow> nat \<Rightarrow> nat list" where
  "ringSlots i n = map (\<lambda>k. (i + Suc k) mod 12) [0..<n]"

text \<open>Every recorded \<^verbatim>\<open>timelineValue\<close> lies strictly before the clock.\<close>

definition clockAhead :: "Statics \<Rightarrow> bool" where
  "clockAhead s \<longleftrightarrow>
     (\<forall>c \<in> set (g_mcubesChunkArray s). timelineValue c < s_upcomingTimelineValue s)"

text \<open>The array has its 12 chunks and the cursor points into it.\<close>

definition arraysOk :: "Statics \<Rightarrow> bool" where
  "arraysOk s \<longleftrightarrow>
     length (g_mcubesChunkArray s) = unat MCUBES_CHUNK_COUNT
     \<and> s_mcubesChunkIndex s < MCUBES_CHUNK_COUNT"

text \<open>The slices a job list is cut into.\<close>

definition jobSlices :: "'p list \<Rightarrow> nat \<Rightarrow> 'p list list" where
  "jobSlices ps B =
     map (\<lambda>b. map (\<lambda>i. ps ! i) [b * B..<min (b * B + B) (length ps)]) [0..<(length ps + B - 1) div B]"

text \<open>A \<^verbatim>\<open>Gui\<close> snapshot with the given queue choice, batch size and job list, and no
  request to replace the kernel.\<close>

definition guiWith :: "bool \<Rightarrow> int \<Rightarrow> 'p list \<Rightarrow> 'p Gui" where
  "guiWith wantComputeQueue batchSize jobs =
     \<lparr> m_wantComputeQueue = wantComputeQueue, m_compileFailure = False,
       m_wantSetEquation = False, m_equationInput = [], m_batchSize = batchSize,
       getMcubesJobs = jobs \<rparr>"

text \<open>The chunks an event assigns, in order, and the dual-queue submissions it makes.\<close>

fun eventChunks :: "'p Event \<Rightarrow> nat list" where
  "eventChunks (TwoQueuesFrame submits) = concat (map tq_chunkPointerArray submits)"
| "eventChunks (GctOnlyFrame submits) = concat (map gct_chunkPointerArray submits)"
| "eventChunks DeviceWaitIdle = []"
| "eventChunks (ReplaceEquation eq success) = []"

fun eventTwoQueuesSubmits :: "'p Event \<Rightarrow> 'p TwoQueuesSubmit list" where
  "eventTwoQueuesSubmits (TwoQueuesFrame submits) = submits"
| "eventTwoQueuesSubmits (GctOnlyFrame submits) = []"
| "eventTwoQueuesSubmits DeviceWaitIdle = []"
| "eventTwoQueuesSubmits (ReplaceEquation eq success) = []"

text \<open>The number of batches the dual-queue scheduler is asked to submit over a run: every
  frame whose GUI wants the compute queue contributes its batch count.\<close>

fun twoQueuesBatchTotal :: "'p Gui list \<Rightarrow> nat" where
  "twoQueuesBatchTotal [] = 0"
| "twoQueuesBatchTotal (pGui # rest) =
     (if m_wantComputeQueue pGui
      then unat (batchCountOf (length (getMcubesJobs pGui)) (batchSizeOf (m_batchSize pGui)))
      else 0) + twoQueuesBatchTotal rest"

text \<open>The value the batches \<open>subs\<close>, replayed in order, leave in slot \<open>i\<close> that held
  \<open>v\<close>: the graphics signal value of the last batch that used the slot, or \<open>v\<close> when none
  did.\<close>

fun lastSignal :: "nat \<Rightarrow> 'p TwoQueuesSubmit list \<Rightarrow> u64 \<Rightarrow> u64" where
  "lastSignal i [] v = v"
| "lastSignal i (sub # subs) v =
     lastSignal i subs
       (if i \<in> set (tq_chunkPointerArray sub) then tq_graphicsSignalTimelineValue sub else v)"

text \<open>The pipelines the batches of an event bind.\<close>

fun eventPipelines :: "'p Event \<Rightarrow> VkPipeline list" where
  "eventPipelines (TwoQueuesFrame submits) = map tq_pipeline submits"
| "eventPipelines (GctOnlyFrame submits) = map gct_pipeline submits"
| "eventPipelines DeviceWaitIdle = []"
| "eventPipelines (ReplaceEquation eq success) = []"

text \<open>Every replacement attempt in the event list comes right after a wait for the idle
  device.\<close>

definition replaceAfterIdle :: "'p Event list \<Rightarrow> bool" where
  "replaceAfterIdle evs \<longleftrightarrow>
     (\<forall>k < length evs. \<forall>eq success.
        evs ! k = ReplaceEquation eq success \<longrightarrow> 0 < k \<and> evs ! (k - 1) = DeviceWaitIdle)"

text \<open>The wait value as the README words it, ``the maximum \<^verbatim>\<open>McubesChunk::timelineValue\<close> of
  all \<^verbatim>\<open>McubesChunk\<close> instances selected'' for the batch, and these values for the batches of
  a frame in turn, every batch reading the chunks before it stores its own signal value in
  them.\<close>

definition selectedChunksMaximum :: "McubesChunk list \<Rightarrow> nat list \<Rightarrow> u64" where
  "selectedChunksMaximum chunkArray ptrs =
     (if ptrs = [] then 0 else Max ((\<lambda>i. timelineValue (chunkArray ! i)) ` set ptrs))"

fun selectedChunksMaxima :: "McubesChunk list \<Rightarrow> 'p TwoQueuesSubmit list \<Rightarrow> u64 list" where
  "selectedChunksMaxima chunkArray [] = []"
| "selectedChunksMaxima chunkArray (sub # subs) =
     selectedChunksMaximum chunkArray (tq_chunkPointerArray sub)
       # selectedChunksMaxima
           (recordTimeline (tq_chunkPointerArray sub) (tq_graphicsSignalTimelineValue sub) chunkArray)
           subs"

text \<open>The frames among the events: for each, whether the dual-queue scheduler ran it, and
  the chunks of its batches, batch by batch.\<close>

fun eventFrames :: "'p Event \<Rightarrow> (bool \<times> nat list list) list" where
  "eventFrames (TwoQueuesFrame submits) = [(True, map tq_chunkPointerArray submits)]"
| "eventFrames (GctOnlyFrame submits) = [(False, map gct_chunkPointerArray submits)]"
| "eventFrames DeviceWaitIdle = []"
| "eventFrames (ReplaceEquation eq success) = []"

text \<open>What a frame for a \<^verbatim>\<open>Gui\<close> snapshot is expected to look like: the scheduler the GUI
  asks for, and one chunk per job in every batch.\<close>

definition frameShape :: "'p Gui \<Rightarrow> bool \<times> nat list" where
  "frameShape pGui =
     (m_wantComputeQueue pGui,
      map length (jobSlices (getMcubesJobs pGui) (unat (batchSizeOf (m_batchSize pGui)))))"

section \<open>Batch arithmetic\<close>

lemma batchSizeOf_bounds: "1 \<le> batchSizeOf m \<and> batchSizeOf m \<le> MCUBES_MAX_CHUNKS_PER_BATCH"
  unfolding batchSizeOf_def clamp_u32_def MCUBES_MAX_CHUNKS_PER_BATCH_def
  by (auto simp: min_def max_def)

lemma batchSizeOf_unat: "1 \<le> unat (batchSizeOf m) \<and> unat (batchSizeOf m) \<le> 6"
  using batchSizeOf_bounds [of m]
  by (simp add: word_le_nat_alt MCUBES_MAX_CHUNKS_PER_BATCH_def)

lemma unat_batchCountOf:
  assumes "batchSize \<noteq> 0"
  shows "unat (batchCountOf n batchSize) = ((n + unat batchSize - 1) mod 2 ^ 32) div unat batchSize"
proof -
  have pos: "1 \<le> n + unat batchSize"
    using assms by (simp add: unat_gt_0 Suc_leI trans_le_add2)
  have "(word_of_nat n :: u64) + ucast batchSize - 1 = word_of_nat (n + unat batchSize - 1)"
    using pos by (simp add: of_nat_diff)
  then have "unat (ucast ((word_of_nat n :: u64) + ucast batchSize - 1) :: u32)
      = (n + unat batchSize - 1) mod 2 ^ 32"
    by (simp add: unsigned_ucast_eq take_bit_eq_mod unat_of_nat mod_mod_cancel)
  then show ?thesis
    by (simp add: batchCountOf_def unat_div)
qed

text \<open>Every batch the loop runs lies inside the list, with no 32-bit wrap-around.\<close>

lemma batch_in_range:
  assumes B: "batchSize \<noteq> 0" and b: "b < unat (batchCountOf n batchSize)"
  shows "b * unat batchSize < n mod 2 ^ 32"
    and "b * unat batchSize + unat batchSize < 2 ^ 32"
proof -
  let ?B = "unat batchSize"
  let ?t = "(n + ?B - 1) mod 2 ^ 32"
  have Bpos: "0 < ?B" using B by (simp add: unat_gt_0)
  have Blt: "?B < 2 ^ 32" using unsigned_less [of batchSize] by simp
  have "b < ?t div ?B" using b unat_batchCountOf [OF B] by simp
  then have "Suc b \<le> ?t div ?B" by simp
  then have "Suc b * ?B \<le> ?t div ?B * ?B" by (rule mult_le_mono1)
  also have "\<dots> \<le> ?t" by simp
  finally have le: "b * ?B + ?B \<le> ?t" by (simp add: add.commute)
  have tlt: "?t < 2 ^ 32" by simp
  show "b * ?B + ?B < 2 ^ 32" using le tlt by linarith
  have eq: "?t = (n mod 2 ^ 32 + (?B - 1)) mod 2 ^ 32"
    using Bpos by (metis Nat.add_diff_assoc Suc_leI One_nat_def mod_add_left_eq)
  show "b * ?B < n mod 2 ^ 32"
  proof (cases "n mod 2 ^ 32 + (?B - 1) < 2 ^ 32")
    case True
    then have "?t = n mod 2 ^ 32 + (?B - 1)" using eq by simp
    then show ?thesis using le Bpos by linarith
  next
    case False
    then have "2 ^ 32 \<le> n mod 2 ^ 32 + (?B - 1)" by simp
    moreover have "n mod 2 ^ 32 + (?B - 1) < 2 ^ 32 + 2 ^ 32"
      using Blt by (simp add: add_less_le_mono less_imp_diff_less order_less_imp_le)
    ultimately have "?t = n mod 2 ^ 32 + (?B - 1) - 2 ^ 32"
      using eq by (metis False add_diff_inverse_nat mod_add_self1 mod_less nat_add_left_cancel_less)
    moreover have "n mod 2 ^ 32 < (2::nat) ^ 32" by simp
    ultimately have "?t < ?B" using Bpos by linarith
    then show ?thesis using le by linarith
  qed
qed

lemma unat_batchStartOf:
  assumes B: "batchSize \<noteq> 0" and b: "b < unat (batchCountOf n batchSize)"
  shows "unat (batchStartOf (word_of_nat b) batchSize) = b * unat batchSize"
proof -
  have lt: "b * unat batchSize < 2 ^ 32"
    using batch_in_range(2) [OF B b] by linarith
  have "unat (word_of_nat (b * unat batchSize) :: u32) = b * unat batchSize"
    using lt by (simp add: unat_of_nat del: of_nat_mult)
  moreover have "batchStartOf (word_of_nat b) batchSize = word_of_nat (b * unat batchSize)"
    by (simp add: batchStartOf_def)
  ultimately show ?thesis by (simp only:)
qed

lemma unat_batchEndOf:
  assumes B: "batchSize \<noteq> 0" and b: "b < unat (batchCountOf n batchSize)"
  shows "unat (batchEndOf (batchStartOf (word_of_nat b) batchSize) batchSize n)
           = min (b * unat batchSize + unat batchSize) (n mod 2 ^ 32)"
proof -
  have "unat (batchStartOf (word_of_nat b) batchSize + batchSize) = b * unat batchSize + unat batchSize"
    using batch_in_range(2) [OF B b] unat_batchStartOf [OF B b]
      unat_add_lem [of "batchStartOf (word_of_nat b) batchSize" batchSize]
    by simp
  then show ?thesis
    unfolding batchEndOf_def 
    by (simp add: min_def word_le_nat_alt unat_of_nat)
qed

lemma batchIterations_le:
  "batchIterations batchStart (batchEndOf batchStart batchSize n) \<le> unat batchSize"
proof -
  have "unat (batchEndOf batchStart batchSize n) \<le> unat (batchStart + batchSize)"
    by (simp add: batchEndOf_def word_le_nat_alt [symmetric])
  also have "\<dots> \<le> unat batchStart + unat batchSize"
    by (simp add: unat_word_ariths)
  finally show ?thesis by (simp add: batchIterations_def)
qed

lemma batchIterations_valid:
  assumes B: "batchSize \<noteq> 0" and b: "b < unat (batchCountOf n batchSize)"
  shows "batchIterations (batchStartOf (word_of_nat b) batchSize)
           (batchEndOf (batchStartOf (word_of_nat b) batchSize) batchSize n)
         = min (b * unat batchSize + unat batchSize) (n mod 2 ^ 32) - b * unat batchSize"
  by (simp add: batchIterations_def unat_batchStartOf [OF B b] unat_batchEndOf [OF B b])

lemma checkBatchCount_valid:
  assumes B: "batchSize \<noteq> 0" and B6: "batchSize \<le> MCUBES_MAX_CHUNKS_PER_BATCH"
    and b: "b < unat (batchCountOf n batchSize)"
  shows "checkBatchCount
           (batchEndOf (batchStartOf (word_of_nat b) batchSize) batchSize n
              - batchStartOf (word_of_nat b) batchSize)
           (batchIterations (batchStartOf (word_of_nat b) batchSize)
              (batchEndOf (batchStartOf (word_of_nat b) batchSize) batchSize n)) = None"
proof -
  let ?s = "batchStartOf (word_of_nat b) batchSize"
  let ?e = "batchEndOf ?s batchSize n"
  have "unat ?s \<le> unat ?e"
    using batch_in_range(1) [OF B b]
    by (simp add: unat_batchStartOf [OF B b] unat_batchEndOf [OF B b])
  then have le: "?s \<le> ?e" by (simp add: word_le_nat_alt)
  have it: "unat (?e - ?s) = batchIterations ?s ?e"
    by (simp add: unat_sub [OF le] batchIterations_def)
  moreover have "batchIterations ?s ?e \<le> unat batchSize" by (rule batchIterations_le)
  moreover have "unat batchSize \<le> unat MCUBES_MAX_CHUNKS_PER_BATCH"
    using B6 by (simp add: word_le_nat_alt)
  ultimately have "\<not> ?e - ?s > MCUBES_MAX_CHUNKS_PER_BATCH"
    by (simp add: word_less_nat_alt)
  then show ?thesis using it by (simp add: checkBatchCount_def)
qed


section \<open>The ring buffer\<close>

lemma nextChunkIndex_less: "nextChunkIndex i < MCUBES_CHUNK_COUNT"
  unfolding nextChunkIndex_def Let_def MCUBES_CHUNK_COUNT_def
  by (simp add: not_le)

lemma unat_nextChunkIndex:
  assumes "i < MCUBES_CHUNK_COUNT"
  shows "unat (nextChunkIndex i) = Suc (unat i) mod 12"
proof -
  have i: "unat i < 12"
    using assms by (simp add: word_less_nat_alt MCUBES_CHUNK_COUNT_def)
  then have u: "unat (i + 1) = Suc (unat i)"
    using unat_add_lem [of i 1] by simp
  have c: "(MCUBES_CHUNK_COUNT \<le> i + 1) = (12 \<le> Suc (unat i))"
    using u by (simp add: word_le_nat_alt MCUBES_CHUNK_COUNT_def)
  show ?thesis
  proof (cases "Suc (unat i) = 12")
    case True
    then show ?thesis
      using c by (simp add: nextChunkIndex_def Let_def)
  next
    case False
    then have "Suc (unat i) < 12" using i by simp
    then show ?thesis
      using u c by (simp add: nextChunkIndex_def Let_def)
  qed
qed

lemma ringSlots_Suc: "ringSlots i (Suc n) = Suc i mod 12 # ringSlots (Suc i mod 12) n"
proof -
  have "[0..<Suc n] = 0 # map Suc [0..<n]"
    by (simp add: upt_conv_Cons map_Suc_upt del: upt_Suc)
  moreover have "(Suc i mod 12 + Suc k) mod 12 = (i + Suc (Suc k)) mod 12" for k
    by (metis add_Suc add_Suc_right mod_add_left_eq)
  ultimately show ?thesis
    by (simp add: ringSlots_def comp_def del: upt_Suc)
qed

lemma selectChunks_ring:
  assumes "i < MCUBES_CHUNK_COUNT"
  shows "snd (selectChunks n i) = ringSlots (unat i) n
       \<and> unat (fst (selectChunks n i)) = (unat i + n) mod 12
       \<and> fst (selectChunks n i) < MCUBES_CHUNK_COUNT"
  using assms
proof (induction n arbitrary: i)
  case 0
  then show ?case
    by (simp add: ringSlots_def word_less_nat_alt MCUBES_CHUNK_COUNT_def)
next
  case (Suc n)
  have j: "nextChunkIndex i < MCUBES_CHUNK_COUNT" by (rule nextChunkIndex_less)
  note IH = Suc.IH [OF j]
  have u: "unat (nextChunkIndex i) = Suc (unat i) mod 12"
    by (rule unat_nextChunkIndex [OF Suc.prems])
  have m: "(Suc (unat i) mod 12 + n) mod 12 = (unat i + Suc n) mod 12"
    by (metis add_Suc add_Suc_right mod_add_left_eq)
  show ?case
    using IH u m
    by (simp add: Let_def split_beta ringSlots_Suc)
qed

lemma length_selectChunks: "length (snd (selectChunks n i)) = n"
  by (induction n arbitrary: i) (simp_all add: Let_def split_beta)

lemma selectChunks_in_range: "p \<in> set (snd (selectChunks n i)) \<Longrightarrow> p < 12"
proof (induction n arbitrary: i)
  case 0
  then show ?case by simp
next
  case (Suc n)
  have "unat (nextChunkIndex i) < 12"
    using nextChunkIndex_less [of i] by (simp add: word_less_nat_alt MCUBES_CHUNK_COUNT_def)
  with Suc show ?case by (auto simp: Let_def split_beta)
qed

section \<open>Timeline values of a batch\<close>

lemma accumulateWait_less:
  "w < u \<Longrightarrow> (\<forall>i \<in> set ptrs. timelineValue (arr ! i) < u) \<Longrightarrow> accumulateWait arr ptrs w < u"
  unfolding accumulateWait_def
  by (induction ptrs arbitrary: w) simp_all

lemma accumulateWait_ge: "w \<le> accumulateWait arr ptrs w"
  unfolding accumulateWait_def
proof (induction ptrs arbitrary: w)
  case Nil
  then show ?case by simp
next
  case (Cons p ptrs)
  have "w \<le> max w (timelineValue (arr ! p))" by simp
  also have "\<dots> \<le> fold (\<lambda>i acc. max acc (timelineValue (arr ! i))) ptrs (max w (timelineValue (arr ! p)))"
    by (rule Cons.IH)
  finally show ?case by simp
qed

lemma length_recordTimeline: "length (recordTimeline ptrs v arr) = length arr"
  unfolding recordTimeline_def
  by (induction ptrs arbitrary: arr) simp_all

lemma recordTimeline_nth:
  "i < length arr \<Longrightarrow>
   timelineValue (recordTimeline ptrs v arr ! i)
     = (if i \<in> set ptrs then v else timelineValue (arr ! i))"
  unfolding recordTimeline_def
proof (induction ptrs arbitrary: arr)
  case Nil
  then show ?case by simp
next
  case (Cons p ptrs)
  let ?arr = "arr[p := (arr ! p)\<lparr>timelineValue := v\<rparr>]"
  have len: "i < length ?arr" using Cons.prems by simp
  have "timelineValue (?arr ! i) = (if i = p then v else timelineValue (arr ! i))"
    using Cons.prems by (simp add: nth_list_update)
  with Cons.IH [OF len] show ?case by auto
qed


section \<open>The dual-queue batch and its loop\<close>

lemma twoQueuesBatch_Inr:
  assumes "twoQueuesBatch ps B C batch st = Inr (st', sub)"
  shows "s_upcomingTimelineValue (tql_statics st') = s_upcomingTimelineValue (tql_statics st) + 1"
    and "g_mcubesChunkArray (tql_statics st') =
           recordTimeline (tq_chunkPointerArray sub)
             (s_upcomingTimelineValue (tql_statics st)) (g_mcubesChunkArray (tql_statics st))"
    and "s_mcubesChunkIndex (tql_statics st') =
           fst (selectChunks (batchIterationsOf ps B batch) (s_mcubesChunkIndex (tql_statics st)))"
    and "tql_computeWaitTimelineValue st' =
           accumulateWait (g_mcubesChunkArray (tql_statics st)) (tq_chunkPointerArray sub)
             (tql_computeWaitTimelineValue st)"
    and "tql_computeWaitTimelineValue st' < s_upcomingTimelineValue (tql_statics st)"
    and "s_mcubesImagePipeline (tql_statics st') = s_mcubesImagePipeline (tql_statics st)"
    and "g_frameNumber (tql_statics st') = g_frameNumber (tql_statics st)"
    and "s_useComputeQueue (tql_statics st') = s_useComputeQueue (tql_statics st)"
  using assms
  by (auto simp: twoQueuesBatch_def batchIterationsOf_def Let_def
           split: prod.splits option.splits if_splits)

lemma twoQueuesBatch_submit:
  assumes "twoQueuesBatch ps B C batch st = Inr (st', sub)"
  shows "tq_chunkPointerArray sub =
           snd (selectChunks (batchIterationsOf ps B batch) (s_mcubesChunkIndex (tql_statics st)))"
    and "tq_params sub = batchParamsOf ps B batch"
    and "tq_pipeline sub = s_mcubesImagePipeline (tql_statics st)"
    and "tq_computeWaitTimelineValue sub = tql_computeWaitTimelineValue st'"
    and "tq_computeSignalTimelineValue sub = s_upcomingTimelineValue (tql_statics st)"
    and "tq_graphicsWaitTimelineValue sub = s_upcomingTimelineValue (tql_statics st)"
    and "tq_graphicsSignalTimelineValue sub = s_upcomingTimelineValue (tql_statics st)"
  using assms
  by (auto simp: twoQueuesBatch_def batchIterationsOf_def batchParamsOf_def Let_def
           split: prod.splits option.splits if_splits)

lemma twoQueuesBatch_succeeds:
  assumes B: "B \<noteq> 0" and B6: "B \<le> MCUBES_MAX_CHUNKS_PER_BATCH"
    and b: "b < unat (batchCountOf (length ps) B)"
    and w: "accumulateWait (g_mcubesChunkArray (tql_statics st))
              (snd (selectChunks (batchIterationsOf ps B (word_of_nat b)) (s_mcubesChunkIndex (tql_statics st))))
              (tql_computeWaitTimelineValue st) < s_upcomingTimelineValue (tql_statics st)"
  shows "\<exists>r. twoQueuesBatch ps B C (word_of_nat b) st = Inr r"
proof -
  have it: "\<not> batchIterationsOf ps B (word_of_nat b) > unat MCUBES_MAX_CHUNKS_PER_BATCH"
    using batchIterations_le [of "batchStartOf (word_of_nat b) B" B "length ps"] B6
    by (simp add: batchIterationsOf_def word_le_nat_alt)
  note chk = checkBatchCount_valid [OF B B6 b]
  show ?thesis
    using it chk w
    by (simp add: twoQueuesBatch_def batchIterationsOf_def Let_def split_beta)
qed

text \<open>One batch keeps the invariants, as long as the clock does not wrap.\<close>

lemma twoQueuesBatch_invariant:
  assumes B: "B \<noteq> 0" and B6: "B \<le> MCUBES_MAX_CHUNKS_PER_BATCH"
    and b: "b < unat (batchCountOf (length ps) B)"
    and ok: "arraysOk (tql_statics st)" and ahead: "clockAhead (tql_statics st)"
    and cw: "tql_computeWaitTimelineValue st < s_upcomingTimelineValue (tql_statics st)"
    and nowrap: "unat (s_upcomingTimelineValue (tql_statics st)) + 1 < 2 ^ 64"
  shows "\<exists>st' sub. twoQueuesBatch ps B C (word_of_nat b) st = Inr (st', sub)
     \<and> arraysOk (tql_statics st') \<and> clockAhead (tql_statics st')
     \<and> tql_computeWaitTimelineValue st' < s_upcomingTimelineValue (tql_statics st')
     \<and> unat (s_upcomingTimelineValue (tql_statics st'))
          = unat (s_upcomingTimelineValue (tql_statics st)) + 1"
proof -
  let ?s = "tql_statics st"
  let ?u = "s_upcomingTimelineValue ?s"
  let ?arr = "g_mcubesChunkArray ?s"
  let ?ptrs = "snd (selectChunks (batchIterationsOf ps B (word_of_nat b)) (s_mcubesChunkIndex ?s))"
  have len: "length ?arr = 12"
    using ok by (simp add: arraysOk_def MCUBES_CHUNK_COUNT_def)
  have old: "timelineValue (?arr ! i) < ?u" if "i < 12" for i
    using ahead that len by (simp add: clockAhead_def)
  have "\<forall>i \<in> set ?ptrs. timelineValue (?arr ! i) < ?u"
    using selectChunks_in_range old by blast
  then have w: "accumulateWait ?arr ?ptrs (tql_computeWaitTimelineValue st) < ?u"
    using cw by (simp add: accumulateWait_less)
  obtain st' sub where r: "twoQueuesBatch ps B C (word_of_nat b) st = Inr (st', sub)"
    using twoQueuesBatch_succeeds [OF B B6 b w] by fastforce
  note f = twoQueuesBatch_Inr [OF r] and g = twoQueuesBatch_submit [OF r]
  have u': "unat (?u + 1) = unat ?u + 1"
    using nowrap unat_add_lem [of ?u 1] by simp
  then have lt: "?u < ?u + 1" by (simp add: word_less_nat_alt)
  have idx: "s_mcubesChunkIndex (tql_statics st') < MCUBES_CHUNK_COUNT"
    using selectChunks_ring [of "s_mcubesChunkIndex ?s"] ok f(3)
    by (simp add: arraysOk_def)
  have len': "length (g_mcubesChunkArray (tql_statics st')) = 12"
    using f(2) len by (simp add: length_recordTimeline)
  have "timelineValue c < ?u + 1" if c: "c \<in> set (g_mcubesChunkArray (tql_statics st'))" for c
  proof -
    obtain i where i: "i < 12" and ci: "c = g_mcubesChunkArray (tql_statics st') ! i"
      using c len' by (metis in_set_conv_nth)
    have "timelineValue c = (if i \<in> set (tq_chunkPointerArray sub) then ?u else timelineValue (?arr ! i))"
      using i len by (simp add: ci f(2) recordTimeline_nth)
    then have "timelineValue c \<le> ?u"
      using old [OF i] by (simp split: if_splits)
    then show ?thesis using lt by simp
  qed
  then have ahead': "clockAhead (tql_statics st')"
    by (simp add: clockAhead_def f(1))
  have "tql_computeWaitTimelineValue st' < ?u + 1"
    using f(5) lt by simp
  then show ?thesis
    using r idx len' ahead' u' f(1)
    by (simp add: arraysOk_def MCUBES_CHUNK_COUNT_def)
qed

lemma twoQueuesBatches_Cons:
  assumes "twoQueuesBatches ps B C (batch # rest) st = Inr (st'', subs)"
  obtains st' sub subs' where "twoQueuesBatch ps B C batch st = Inr (st', sub)"
    and "twoQueuesBatches ps B C rest st' = Inr (st'', subs')" and "subs = sub # subs'"
  using assms by (auto split: sum.splits)

lemma upt_0_Suc_map: "[0..<Suc n] = 0 # map Suc [0..<n]"
  by (simp add: upt_conv_Cons map_Suc_upt del: upt_Suc)

lemma twoQueuesBatches_invariant:
  assumes B: "B \<noteq> 0" and B6: "B \<le> MCUBES_MAX_CHUNKS_PER_BATCH"
    and bs: "\<forall>batch \<in> set batches. \<exists>b < unat (batchCountOf (length ps) B). batch = word_of_nat b"
    and ok: "arraysOk (tql_statics st)" and ahead: "clockAhead (tql_statics st)"
    and cw: "tql_computeWaitTimelineValue st < s_upcomingTimelineValue (tql_statics st)"
    and nowrap: "unat (s_upcomingTimelineValue (tql_statics st)) + length batches < 2 ^ 64"
  shows "\<exists>st' subs. twoQueuesBatches ps B C batches st = Inr (st', subs)
     \<and> arraysOk (tql_statics st') \<and> clockAhead (tql_statics st')
     \<and> tql_computeWaitTimelineValue st' < s_upcomingTimelineValue (tql_statics st')
     \<and> unat (s_upcomingTimelineValue (tql_statics st'))
          = unat (s_upcomingTimelineValue (tql_statics st)) + length batches"
  using bs ok ahead cw nowrap
proof (induction batches arbitrary: st)
  case Nil
  then show ?case by simp
next
  case (Cons batch rest)
  obtain b where b: "b < unat (batchCountOf (length ps) B)" and batch: "batch = word_of_nat b"
    using Cons.prems(1) by auto
  have nw1: "unat (s_upcomingTimelineValue (tql_statics st)) + 1 < 2 ^ 64"
    using Cons.prems(5) by simp
  obtain st1 sub where r1: "twoQueuesBatch ps B C batch st = Inr (st1, sub)"
    and ok1: "arraysOk (tql_statics st1)" and ahead1: "clockAhead (tql_statics st1)"
    and cw1: "tql_computeWaitTimelineValue st1 < s_upcomingTimelineValue (tql_statics st1)"
    and u1: "unat (s_upcomingTimelineValue (tql_statics st1))
               = unat (s_upcomingTimelineValue (tql_statics st)) + 1"
    using twoQueuesBatch_invariant [OF B B6 b Cons.prems(2,3,4) nw1, of C] batch by blast
  have bs': "\<forall>batch \<in> set rest. \<exists>b < unat (batchCountOf (length ps) B). batch = word_of_nat b"
    using Cons.prems(1) by simp
  have nw': "unat (s_upcomingTimelineValue (tql_statics st1)) + length rest < 2 ^ 64"
    using Cons.prems(5) u1 by simp
  obtain st' subs where r: "twoQueuesBatches ps B C rest st1 = Inr (st', subs)"
    and post: "arraysOk (tql_statics st')" "clockAhead (tql_statics st')"
      "tql_computeWaitTimelineValue st' < s_upcomingTimelineValue (tql_statics st')"
      "unat (s_upcomingTimelineValue (tql_statics st'))
          = unat (s_upcomingTimelineValue (tql_statics st1)) + length rest"
    using Cons.IH [OF bs' ok1 ahead1 cw1 nw'] by blast
  show ?case
    using r1 r post u1 by simp
qed

lemma twoQueuesBatches_length:
  "twoQueuesBatches ps B C batches st = Inr (st', subs) \<Longrightarrow> length subs = length batches"
proof (induction batches arbitrary: st subs)
  case Nil
  then show ?case by simp
next
  case (Cons batch rest)
  from Cons.prems show ?case
    by (rule twoQueuesBatches_Cons) (simp add: Cons.IH)
qed

lemma twoQueuesBatches_params:
  "twoQueuesBatches ps B C batches st = Inr (st', subs) \<Longrightarrow>
   map tq_params subs = map (batchParamsOf ps B) batches"
proof (induction batches arbitrary: st subs)
  case Nil
  then show ?case by simp
next
  case (Cons batch rest)
  from Cons.prems show ?case
    by (rule twoQueuesBatches_Cons) (simp add: Cons.IH twoQueuesBatch_submit(2))
qed

lemma twoQueuesBatches_signals:
  assumes "twoQueuesBatches ps B C batches st = Inr (st', subs)"
  shows "s_upcomingTimelineValue (tql_statics st')
           = s_upcomingTimelineValue (tql_statics st) + word_of_nat (length batches)"
    and "map tq_computeSignalTimelineValue subs
           = map (\<lambda>k. s_upcomingTimelineValue (tql_statics st) + word_of_nat k) [0..<length batches]"
    and "map tq_graphicsWaitTimelineValue subs = map tq_computeSignalTimelineValue subs"
    and "map tq_graphicsSignalTimelineValue subs = map tq_computeSignalTimelineValue subs"
  using assms
proof (induction batches arbitrary: st subs)
  case Nil
  {
    case 1 then show ?case by simp
  next
    case 2 then show ?case by simp
  next
    case 3 then show ?case by simp
  next
    case 4 then show ?case by simp
  }
next
  case (Cons batch rest)
  {
    case 1
    from 1 show ?case
    proof (rule twoQueuesBatches_Cons)
      fix st1 sub subs'
      assume a: "twoQueuesBatch ps B C batch st = Inr (st1, sub)"
        "twoQueuesBatches ps B C rest st1 = Inr (st', subs')" "subs = sub # subs'"
      show ?thesis
        using Cons.IH(1) [OF a(2)] twoQueuesBatch_Inr(1) [OF a(1)] by simp
    qed
  next
    case 2
    from 2 show ?case
    proof (rule twoQueuesBatches_Cons)
      fix st1 sub subs'
      assume a: "twoQueuesBatch ps B C batch st = Inr (st1, sub)"
        "twoQueuesBatches ps B C rest st1 = Inr (st', subs')" "subs = sub # subs'"
      show ?thesis
        using Cons.IH(2) [OF a(2)] twoQueuesBatch_Inr(1) [OF a(1)] twoQueuesBatch_submit(5) [OF a(1)] a(3)
        by (simp add: upt_0_Suc_map comp_def add.assoc del: upt_Suc)
    qed
  next
    case 3
    from 3 show ?case
      by (rule twoQueuesBatches_Cons)
        (simp add: Cons.IH(3) twoQueuesBatch_submit(5,6))
  next
    case 4
    from 4 show ?case
      by (rule twoQueuesBatches_Cons)
        (simp add: Cons.IH(4) twoQueuesBatch_submit(5,7))
  }
qed

lemma twoQueuesBatches_wait_less_signal:
  "twoQueuesBatches ps B C batches st = Inr (st', subs) \<Longrightarrow> sub \<in> set subs \<Longrightarrow>
   tq_computeWaitTimelineValue sub < tq_computeSignalTimelineValue sub"
proof (induction batches arbitrary: st subs)
  case Nil
  then show ?case by simp
next
  case (Cons batch rest)
  from Cons.prems(1) show ?case
  proof (rule twoQueuesBatches_Cons)
    fix st1 sub1 subs'
    assume a: "twoQueuesBatch ps B C batch st = Inr (st1, sub1)"
      "twoQueuesBatches ps B C rest st1 = Inr (st', subs')" "subs = sub1 # subs'"
    show ?thesis
    proof (cases "sub = sub1")
      case True
      then show ?thesis
        using twoQueuesBatch_Inr(5) [OF a(1)] twoQueuesBatch_submit(4,5) [OF a(1)] by simp
    next
      case False
      then have "sub \<in> set subs'" using Cons.prems(2) a(3) by simp
      then show ?thesis using Cons.IH [OF a(2)] by simp
    qed
  qed
qed

section \<open>Frames\<close>

lemma batchNumbers_valid:
  "\<forall>batch \<in> set (batchNumbers C). \<exists>b < unat C. batch = word_of_nat b"
  by (auto simp: batchNumbers_def)

lemma length_batchNumbers: "length (batchNumbers C) = unat C"
  by (simp add: batchNumbers_def)

lemma batchSizeOf_nonzero: "batchSizeOf m \<noteq> 0"
  using batchSizeOf_unat [of m] by (auto simp: unat_eq_zero)

lemma twoQueues_frame_Inr:
  assumes "computeDrawCommandsTwoQueues pGui s = Inr (s', subs)"
  obtains st' where
    "twoQueuesBatches (getMcubesJobs pGui) (batchSizeOf (m_batchSize pGui))
       (batchCountOf (length (getMcubesJobs pGui)) (batchSizeOf (m_batchSize pGui)))
       (batchNumbers (batchCountOf (length (getMcubesJobs pGui)) (batchSizeOf (m_batchSize pGui))))
       \<lparr> tql_statics = s, tql_nextCmdBufIndex = 0, tql_computeWaitTimelineValue = 0 \<rparr>
     = Inr (st', subs)"
    and "s' = tql_statics st'"
  using assms
  by (auto simp: computeDrawCommandsTwoQueues_def Let_def split: if_splits sum.splits)

lemma twoQueues_frame_invariant:
  assumes ok: "arraysOk s" and ahead: "clockAhead s"
    and nowrap: "unat (s_upcomingTimelineValue s)
        + unat (batchCountOf (length (getMcubesJobs pGui)) (batchSizeOf (m_batchSize pGui))) < 2 ^ 64"
  shows "\<exists>s' subs. computeDrawCommandsTwoQueues pGui s = Inr (s', subs)
     \<and> arraysOk s' \<and> clockAhead s'
     \<and> unat (s_upcomingTimelineValue s') = unat (s_upcomingTimelineValue s) + length subs"
proof -
  let ?ps = "getMcubesJobs pGui"
  let ?B = "batchSizeOf (m_batchSize pGui)"
  let ?C = "batchCountOf (length ?ps) ?B"
  let ?st = "\<lparr> tql_statics = s, tql_nextCmdBufIndex = 0, tql_computeWaitTimelineValue = 0 \<rparr>"
  have B: "?B \<noteq> 0" by (rule batchSizeOf_nonzero)
  have B6: "?B \<le> MCUBES_MAX_CHUNKS_PER_BATCH" using batchSizeOf_bounds by simp
  have "g_mcubesChunkArray s \<noteq> []"
    using ok by (auto simp: arraysOk_def MCUBES_CHUNK_COUNT_def)
  then obtain c where "c \<in> set (g_mcubesChunkArray s)"
    by (meson last_in_set)
  then have "timelineValue c < s_upcomingTimelineValue s"
    using ahead by (simp add: clockAhead_def)
  then have cw: "tql_computeWaitTimelineValue ?st < s_upcomingTimelineValue (tql_statics ?st)"
    using le_less_trans [of 0 "timelineValue c" "s_upcomingTimelineValue s"] by simp
  have nw: "unat (s_upcomingTimelineValue (tql_statics ?st)) + length (batchNumbers ?C) < 2 ^ 64"
    using nowrap by (simp add: length_batchNumbers)
  obtain st' subs where r: "twoQueuesBatches ?ps ?B ?C (batchNumbers ?C) ?st = Inr (st', subs)"
    and post: "arraysOk (tql_statics st')" "clockAhead (tql_statics st')"
      "unat (s_upcomingTimelineValue (tql_statics st'))
          = unat (s_upcomingTimelineValue (tql_statics ?st)) + length (batchNumbers ?C)"
    using twoQueuesBatches_invariant [OF B B6 batchNumbers_valid _ _ cw nw, of ?C] ok ahead
    by auto
  have "length subs = length (batchNumbers ?C)"
    using r by (rule twoQueuesBatches_length)
  then show ?thesis
    using r post B by (simp add: computeDrawCommandsTwoQueues_def Let_def)
qed

subsection \<open>The single-queue batch\<close>

lemma gctBatch_Inr:
  assumes "gctBatch ps B C batch st = Inr (st', sub)"
  shows "s_upcomingTimelineValue (gl_statics st') = s_upcomingTimelineValue (gl_statics st)"
    and "g_mcubesChunkArray (gl_statics st') = g_mcubesChunkArray (gl_statics st)"
    and "s_frameComputePoolWaitTimelineValues (gl_statics st')
           = s_frameComputePoolWaitTimelineValues (gl_statics st)"
    and "s_frameGraphicsPoolWaitTimelineValues (gl_statics st')
           = s_frameGraphicsPoolWaitTimelineValues (gl_statics st)"
    and "s_frameComputeCmdBufs (gl_statics st') = s_frameComputeCmdBufs (gl_statics st)"
    and "s_mcubesImagePipeline (gl_statics st') = s_mcubesImagePipeline (gl_statics st)"
    and "g_frameNumber (gl_statics st') = g_frameNumber (gl_statics st)"
    and "s_useComputeQueue (gl_statics st') = s_useComputeQueue (gl_statics st)"
    and "s_mcubesChunkIndex (gl_statics st') =
           fst (selectChunks (batchIterationsOf ps B batch) (s_mcubesChunkIndex (gl_statics st)))"
  using assms
  by (auto simp: gctBatch_def batchIterationsOf_def Let_def
           split: prod.splits option.splits if_splits)

lemma gctBatch_submit:
  assumes "gctBatch ps B C batch st = Inr (st', sub)"
  shows "gct_chunkPointerArray sub =
           snd (selectChunks (batchIterationsOf ps B batch) (s_mcubesChunkIndex (gl_statics st)))"
    and "gct_params sub = batchParamsOf ps B batch"
    and "gct_pipeline sub = s_mcubesImagePipeline (gl_statics st)"
  using assms
  by (auto simp: gctBatch_def batchIterationsOf_def batchParamsOf_def Let_def
           split: prod.splits option.splits if_splits)

lemma gctBatch_succeeds:
  assumes B: "B \<noteq> 0" and B6: "B \<le> MCUBES_MAX_CHUNKS_PER_BATCH"
    and b: "b < unat (batchCountOf (length ps) B)"
  shows "\<exists>r. gctBatch ps B C (word_of_nat b) st = Inr r"
proof -
  have it: "\<not> batchIterationsOf ps B (word_of_nat b) > unat MCUBES_MAX_CHUNKS_PER_BATCH"
    using batchIterations_le [of "batchStartOf (word_of_nat b) B" B "length ps"] B6
    by (simp add: batchIterationsOf_def word_le_nat_alt)
  note chk = checkBatchCount_valid [OF B B6 b]
  have half: "B \<le> MCUBES_CHUNK_COUNT div 2"
    using B6 by (simp add: MCUBES_CHUNK_COUNT_def MCUBES_MAX_CHUNKS_PER_BATCH_def)
  show ?thesis
    using it chk half
    by (simp add: gctBatch_def batchIterationsOf_def Let_def split_beta)
qed

lemma gctBatches_Cons:
  assumes "gctBatches ps B C (batch # rest) st = Inr (st'', subs)"
  obtains st' sub subs' where "gctBatch ps B C batch st = Inr (st', sub)"
    and "gctBatches ps B C rest st' = Inr (st'', subs')" and "subs = sub # subs'"
  using assms by (auto split: sum.splits)

lemma gctBatches_succeed:
  assumes B: "B \<noteq> 0" and B6: "B \<le> MCUBES_MAX_CHUNKS_PER_BATCH"
    and bs: "\<forall>batch \<in> set batches. \<exists>b < unat (batchCountOf (length ps) B). batch = word_of_nat b"
  shows "\<exists>r. gctBatches ps B C batches st = Inr r"
  using bs
proof (induction batches arbitrary: st)
  case Nil
  then show ?case by simp
next
  case (Cons batch rest)
  obtain b where b: "b < unat (batchCountOf (length ps) B)" and batch: "batch = word_of_nat b"
    using Cons.prems by auto
  obtain st1 sub where r1: "gctBatch ps B C batch st = Inr (st1, sub)"
    using gctBatch_succeeds [OF B B6 b, of C st] batch by fastforce
  obtain r where "gctBatches ps B C rest st1 = Inr r"
    using Cons.IH [of st1] Cons.prems by auto
  then show ?case using r1 by (cases r) simp
qed

lemma gctBatches_length:
  "gctBatches ps B C batches st = Inr (st', subs) \<Longrightarrow> length subs = length batches"
proof (induction batches arbitrary: st subs)
  case Nil
  then show ?case by simp
next
  case (Cons batch rest)
  from Cons.prems show ?case
    by (rule gctBatches_Cons) (simp add: Cons.IH)
qed

lemma gctBatches_params:
  "gctBatches ps B C batches st = Inr (st', subs) \<Longrightarrow>
   map gct_params subs = map (batchParamsOf ps B) batches"
proof (induction batches arbitrary: st subs)
  case Nil
  then show ?case by simp
next
  case (Cons batch rest)
  from Cons.prems show ?case
    by (rule gctBatches_Cons) (simp add: Cons.IH gctBatch_submit(2))
qed

lemma gctBatches_frame:
  assumes "gctBatches ps B C batches st = Inr (st', subs)"
  shows "s_upcomingTimelineValue (gl_statics st') = s_upcomingTimelineValue (gl_statics st)
     \<and> g_mcubesChunkArray (gl_statics st') = g_mcubesChunkArray (gl_statics st)
     \<and> s_frameComputePoolWaitTimelineValues (gl_statics st')
           = s_frameComputePoolWaitTimelineValues (gl_statics st)
     \<and> s_frameGraphicsPoolWaitTimelineValues (gl_statics st')
           = s_frameGraphicsPoolWaitTimelineValues (gl_statics st)
     \<and> s_frameComputeCmdBufs (gl_statics st') = s_frameComputeCmdBufs (gl_statics st)
     \<and> s_mcubesImagePipeline (gl_statics st') = s_mcubesImagePipeline (gl_statics st)
     \<and> g_frameNumber (gl_statics st') = g_frameNumber (gl_statics st)
     \<and> s_useComputeQueue (gl_statics st') = s_useComputeQueue (gl_statics st)"
  using assms
proof (induction batches arbitrary: st subs)
  case Nil
  then show ?case by simp
next
  case (Cons batch rest)
  from Cons.prems show ?case
  proof (rule gctBatches_Cons)
    fix st1 sub subs'
    assume a: "gctBatch ps B C batch st = Inr (st1, sub)"
      "gctBatches ps B C rest st1 = Inr (st', subs')"
    show ?thesis
      using Cons.IH [OF a(2)] gctBatch_Inr [OF a(1)] by simp
  qed
qed

lemma gct_frame_Inr:
  assumes "computeDrawCommandsGctOnly pGui s = Inr (s', subs)"
  obtains st' where
    "gctBatches (getMcubesJobs pGui) (batchSizeOf (m_batchSize pGui))
       (batchCountOf (length (getMcubesJobs pGui)) (batchSizeOf (m_batchSize pGui)))
       (batchNumbers (batchCountOf (length (getMcubesJobs pGui)) (batchSizeOf (m_batchSize pGui))))
       \<lparr> gl_statics = s, gl_nextCmdBufIndex = 0 \<rparr>
     = Inr (st', subs)"
    and "s' = gl_statics st'"
  using assms
  by (auto simp: computeDrawCommandsGctOnly_def Let_def split: if_splits sum.splits)

lemma gct_frame_succeeds: "\<exists>s' subs. computeDrawCommandsGctOnly pGui s = Inr (s', subs)"
proof -
  let ?ps = "getMcubesJobs pGui"
  let ?B = "batchSizeOf (m_batchSize pGui)"
  let ?C = "batchCountOf (length ?ps) ?B"
  have B: "?B \<noteq> 0" by (rule batchSizeOf_nonzero)
  have B6: "?B \<le> MCUBES_MAX_CHUNKS_PER_BATCH" using batchSizeOf_bounds by simp
  obtain r where "gctBatches ?ps ?B ?C (batchNumbers ?C) \<lparr> gl_statics = s, gl_nextCmdBufIndex = 0 \<rparr> = Inr r"
    using gctBatches_succeed [OF B B6 batchNumbers_valid] by blast
  then show ?thesis
    using B by (cases r) (simp add: computeDrawCommandsGctOnly_def Let_def)
qed


lemma twoQueuesBatch_Inl:
  assumes B: "B \<noteq> 0" and B6: "B \<le> MCUBES_MAX_CHUNKS_PER_BATCH"
    and b: "b < unat (batchCountOf (length ps) B)"
    and e: "twoQueuesBatch ps B C (word_of_nat b) st = Inl e"
  shows "e = CircularDependencyAssert"
proof -
  have it: "\<not> batchIterationsOf ps B (word_of_nat b) > unat MCUBES_MAX_CHUNKS_PER_BATCH"
    using batchIterations_le [of "batchStartOf (word_of_nat b) B" B "length ps"] B6
    by (simp add: batchIterationsOf_def word_le_nat_alt)
  note chk = checkBatchCount_valid [OF B B6 b]
  show ?thesis
    using it chk e
    by (simp add: twoQueuesBatch_def batchIterationsOf_def Let_def split_beta split: if_splits)
qed

lemma twoQueuesBatches_Inl:
  assumes B: "B \<noteq> 0" and B6: "B \<le> MCUBES_MAX_CHUNKS_PER_BATCH"
    and bs: "\<forall>batch \<in> set batches. \<exists>b < unat (batchCountOf (length ps) B). batch = word_of_nat b"
    and e: "twoQueuesBatches ps B C batches st = Inl e"
  shows "e = CircularDependencyAssert"
  using bs e
proof (induction batches arbitrary: st)
  case Nil
  then show ?case by simp
next
  case (Cons batch rest)
  obtain b where b: "b < unat (batchCountOf (length ps) B)" and batch: "batch = word_of_nat b"
    using Cons.prems(1) by auto
  show ?case
  proof (cases "twoQueuesBatch ps B C batch st")
    case (Inl e1)
    then show ?thesis
      using Cons.prems(2) twoQueuesBatch_Inl [OF B B6 b, of C st e1] batch by simp
  next
    case (Inr r)
    obtain st1 sub where r: "r = (st1, sub)" by (cases r)
    have "twoQueuesBatches ps B C rest st1 = Inl e"
      using Cons.prems(2) Inr r by (simp split: sum.splits prod.splits)
    then show ?thesis using Cons.IH [of st1] Cons.prems(1) by simp
  qed
qed

lemma twoQueues_frame_Inl:
  assumes "computeDrawCommandsTwoQueues pGui s = Inl e"
  shows "e = CircularDependencyAssert"
proof -
  let ?ps = "getMcubesJobs pGui"
  let ?B = "batchSizeOf (m_batchSize pGui)"
  let ?C = "batchCountOf (length ?ps) ?B"
  have B: "?B \<noteq> 0" by (rule batchSizeOf_nonzero)
  have B6: "?B \<le> MCUBES_MAX_CHUNKS_PER_BATCH" using batchSizeOf_bounds by simp
  have "twoQueuesBatches ?ps ?B ?C (batchNumbers ?C)
          \<lparr> tql_statics = s, tql_nextCmdBufIndex = 0, tql_computeWaitTimelineValue = 0 \<rparr> = Inl e"
    using assms B
    by (simp add: computeDrawCommandsTwoQueues_def Let_def split: sum.splits prod.splits)
  then show ?thesis
    by (rule twoQueuesBatches_Inl [OF B B6 batchNumbers_valid])
qed

lemma batchIterationsOf_le: "batchIterationsOf ps B batch \<le> unat B"
  unfolding batchIterationsOf_def by (rule batchIterations_le)

subsection \<open>The batches of a frame\<close>

lemma slice_take_drop:
  "map (\<lambda>i. ps ! i) [b * B..<min (b * B + B) (length ps)] = take B (drop (b * B) ps)"
proof (rule nth_equalityI)
  show "length (map (\<lambda>i. ps ! i) [b * B..<min (b * B + B) (length ps)]) = length (take B (drop (b * B) ps))"
    by (auto simp: min_def)
next
  fix i
  assume "i < length (map (\<lambda>i. ps ! i) [b * B..<min (b * B + B) (length ps)])"
  then show "map (\<lambda>i. ps ! i) [b * B..<min (b * B + B) (length ps)] ! i = take B (drop (b * B) ps) ! i"
    by (simp add: min_def split: if_splits)
qed

lemma concat_slices_take:
  "concat (map (\<lambda>b. take B (drop (b * B) ps)) [0..<n]) = take (n * B) ps"
proof (induction n)
  case 0
  then show ?case by simp
next
  case (Suc n)
  have "take (Suc n * B) ps = take (n * B + B) ps"
    by (simp add: add.commute)
  also have "\<dots> = take (n * B) ps @ take B (drop (n * B) ps)"
    by (rule take_add)
  finally show ?case using Suc by simp
qed

lemma ceil_div_covers:
  assumes "0 < B"
  shows "(M::nat) \<le> ((M + B - 1) div B) * B"
proof -
  have "M + B - 1 = (M + B - 1) div B * B + (M + B - 1) mod B" by simp
  moreover have "(M + B - 1) mod B \<le> B - 1"
    using assms by (metis Suc_pred' less_Suc_eq_le mod_less_divisor One_nat_def)
  ultimately show ?thesis using assms by linarith
qed

lemma ceil_div_tight:
  assumes "0 < B" and "Suc b < (M + B - 1) div B"
  shows "b * B + B < (M::nat)"
proof -
  have "Suc (Suc b) \<le> (M + B - 1) div B" using assms(2) by simp
  then have "Suc (Suc b) * B \<le> (M + B - 1) div B * B" by (rule mult_le_mono1)
  also have "\<dots> \<le> M + B - 1" by simp
  finally show ?thesis using assms(1) by simp
qed

lemma jobSlices_facts:
  assumes B: "0 < B"
  shows "length (jobSlices ps B) = (length ps + B - 1) div B"
    and "b < length (jobSlices ps B) \<Longrightarrow>
           jobSlices ps B ! b = map (\<lambda>i. ps ! i) [b * B..<min ((b + 1) * B) (length ps)]"
    and "concat (jobSlices ps B) = ps"
    and "Suc b < length (jobSlices ps B) \<Longrightarrow> length (jobSlices ps B ! b) = B"
    and "b < length (jobSlices ps B) \<Longrightarrow> jobSlices ps B ! b \<noteq> []"
proof -
  show len: "length (jobSlices ps B) = (length ps + B - 1) div B"
    by (simp add: jobSlices_def)
  show "jobSlices ps B ! b = map (\<lambda>i. ps ! i) [b * B..<min ((b + 1) * B) (length ps)]"
    if "b < length (jobSlices ps B)"
    using that by (simp add: jobSlices_def add.commute)
  have "concat (jobSlices ps B) = take ((length ps + B - 1) div B * B) ps"
    by (simp add: jobSlices_def slice_take_drop concat_slices_take)
  then show "concat (jobSlices ps B) = ps"
    using ceil_div_covers [OF B, of "length ps"] by simp
  show "length (jobSlices ps B ! b) = B" if "Suc b < length (jobSlices ps B)"
  proof -
    have "b * B + B < length ps"
      using that ceil_div_tight [OF B, of b "length ps"] by (simp add: len)
    then show ?thesis using that by (simp add: jobSlices_def)
  qed
  show "jobSlices ps B ! b \<noteq> []" if "b < length (jobSlices ps B)"
  proof -
    have "Suc b \<le> (length ps + B - 1) div B" using that by (simp add: len)
    then have "Suc b * B \<le> (length ps + B - 1) div B * B" by (rule mult_le_mono1)
    also have "\<dots> \<le> length ps + B - 1" by simp
    finally have "b * B < length ps" using B by simp
    then show ?thesis using that B by (auto simp: jobSlices_def min_def)
  qed
qed

text \<open>With no 32-bit wrap-around, the batches of a frame are these slices.\<close>

lemma batchParamsOf_slices:
  assumes B: "B \<noteq> 0" and fits: "length ps + unat B \<le> 2 ^ 32"
  shows "map (batchParamsOf ps B) (batchNumbers (batchCountOf (length ps) B)) = jobSlices ps (unat B)"
proof -
  have Bpos: "0 < unat B" using B by (simp add: unat_gt_0)
  have small: "length ps + unat B - 1 < 2 ^ 32" using fits Bpos by linarith
  have M: "length ps mod 2 ^ 32 = length ps" using fits Bpos by simp
  have C: "unat (batchCountOf (length ps) B) = (length ps + unat B - 1) div unat B"
    using small by (simp add: unat_batchCountOf [OF B])
  have eq: "batchParamsOf ps B (word_of_nat b)
          = map (\<lambda>i. ps ! i) [b * unat B..<min (b * unat B + unat B) (length ps)]"
    if "b < unat (batchCountOf (length ps) B)" for b
    using unat_batchStartOf [OF B that] unat_batchEndOf [OF B that] M
    by (simp add: batchParamsOf_def batchParams_def)
  have "map (batchParamsOf ps B) (batchNumbers (batchCountOf (length ps) B))
      = map (\<lambda>b. map (\<lambda>i. ps ! i) [b * unat B..<min (b * unat B + unat B) (length ps)])
          [0..<unat (batchCountOf (length ps) B)]"
    unfolding batchNumbers_def map_map
    by (rule map_cong [OF refl]) (simp add: eq)
  then show ?thesis
    by (simp only: jobSlices_def C)
qed

lemma twoQueues_frame_params:
  assumes "computeDrawCommandsTwoQueues pGui s = Inr (s', subs)"
    and "length (getMcubesJobs pGui) + unat (batchSizeOf (m_batchSize pGui)) \<le> 2 ^ 32"
  shows "map tq_params subs = jobSlices (getMcubesJobs pGui) (unat (batchSizeOf (m_batchSize pGui)))"
proof -
  from assms(1) obtain st' where
    l: "twoQueuesBatches (getMcubesJobs pGui) (batchSizeOf (m_batchSize pGui))
       (batchCountOf (length (getMcubesJobs pGui)) (batchSizeOf (m_batchSize pGui)))
       (batchNumbers (batchCountOf (length (getMcubesJobs pGui)) (batchSizeOf (m_batchSize pGui))))
       \<lparr> tql_statics = s, tql_nextCmdBufIndex = 0, tql_computeWaitTimelineValue = 0 \<rparr>
     = Inr (st', subs)"
    by (rule twoQueues_frame_Inr)
  show ?thesis
    using twoQueuesBatches_params [OF l] batchParamsOf_slices [OF batchSizeOf_nonzero assms(2)]
    by simp
qed

lemma gct_frame_params:
  assumes "computeDrawCommandsGctOnly pGui s = Inr (s', subs)"
    and "length (getMcubesJobs pGui) + unat (batchSizeOf (m_batchSize pGui)) \<le> 2 ^ 32"
  shows "map gct_params subs = jobSlices (getMcubesJobs pGui) (unat (batchSizeOf (m_batchSize pGui)))"
proof -
  from assms(1) obtain st' where
    l: "gctBatches (getMcubesJobs pGui) (batchSizeOf (m_batchSize pGui))
       (batchCountOf (length (getMcubesJobs pGui)) (batchSizeOf (m_batchSize pGui)))
       (batchNumbers (batchCountOf (length (getMcubesJobs pGui)) (batchSizeOf (m_batchSize pGui))))
       \<lparr> gl_statics = s, gl_nextCmdBufIndex = 0 \<rparr>
     = Inr (st', subs)"
    by (rule gct_frame_Inr)
  show ?thesis
    using gctBatches_params [OF l] batchParamsOf_slices [OF batchSizeOf_nonzero assms(2)]
    by simp
qed

text \<open>What it means for the lists \<open>xss\<close> to be the batches of \<open>ps\<close>, spelled out.\<close>

lemma slices_spelled_out:
  assumes eq: "map f subs = jobSlices ps B" and B: "0 < B"
  shows "length subs = (length ps + B - 1) div B
     \<and> (\<forall>b < length subs. f (subs ! b) = map (\<lambda>i. ps ! i) [b * B..<min ((b + 1) * B) (length ps)])
     \<and> concat (map f subs) = ps
     \<and> (\<forall>b. Suc b < length subs \<longrightarrow> length (f (subs ! b)) = B)
     \<and> (\<forall>b < length subs. f (subs ! b) \<noteq> [])"
proof -
  have len: "length subs = length (jobSlices ps B)"
    using eq by (metis length_map)
  have nth: "f (subs ! b) = jobSlices ps B ! b" if "b < length subs" for b
    using eq that by (metis nth_map)
  have "Suc b < length subs \<Longrightarrow> b < length subs" for b by simp
  then show ?thesis
    using jobSlices_facts [OF B, where ps = ps] by (simp add: len [symmetric] nth eq)
qed

lemma example_fits: "length (getMcubesJobs (guiWith q 6 [0..<64])) + unat (batchSizeOf (m_batchSize (guiWith q 6 [0..<64]))) \<le> 2 ^ 32"
  by (simp add: guiWith_def batchSizeOf_def clamp_u32_def MCUBES_MAX_CHUNKS_PER_BATCH_def)

lemma initial_arraysOk: "arraysOk (initialStatics p q)"
  by (simp add: arraysOk_def initialStatics_def MCUBES_CHUNK_COUNT_def)

lemma initial_clockAhead: "clockAhead (initialStatics p q)"
  by (simp add: clockAhead_def initialStatics_def)

lemma example_batchCount: "batchCountOf (length (getMcubesJobs (guiWith q 6 [0..<64]))) (batchSizeOf (m_batchSize (guiWith q 6 [0..<64]))) = 11"
  by (simp add: guiWith_def batchSizeOf_def clamp_u32_def MCUBES_MAX_CHUNKS_PER_BATCH_def batchCountOf_def)

section \<open>Runs of the main loop\<close>

lemma ringSlots_0: "ringSlots i 0 = []"
  by (simp add: ringSlots_def)

lemma ringSlots_mod: "ringSlots (i mod 12) n = ringSlots i n"
  unfolding ringSlots_def by (simp only: mod_add_left_eq)

lemma ringSlots_append:
  "ringSlots i (m + n) = ringSlots i m @ ringSlots ((i + m) mod 12) n"
proof (induction m arbitrary: i)
  case 0
  show ?case by (simp add: ringSlots_0 ringSlots_mod)
next
  case (Suc m)
  have "(Suc i mod 12 + m) mod 12 = (i + Suc m) mod 12"
    by (metis add_Suc add_Suc_right mod_add_left_eq)
  then show ?case
    using Suc [of "Suc i mod 12"] ringSlots_Suc [of i "m + n"] ringSlots_Suc [of i m] by simp
qed

lemma length_ringSlots: "length (ringSlots i n) = n"
  by (simp add: ringSlots_def)

text \<open>A round-robin step: the ring walked from cursor \<open>i\<close> to cursor \<open>j\<close> over \<open>cs\<close>.\<close>

lemma ring_walk_step:
  assumes i: "i < MCUBES_CHUNK_COUNT"
    and step: "cs1 = snd (selectChunks n i)" "j = fst (selectChunks n i)"
    and rest: "cs2 = ringSlots (unat j) (length cs2)" "unat k = (unat j + length cs2) mod 12"
  shows "cs1 @ cs2 = ringSlots (unat i) (length (cs1 @ cs2))"
    and "unat k = (unat i + length (cs1 @ cs2)) mod 12"
    and "j < MCUBES_CHUNK_COUNT"
proof -
  note r = selectChunks_ring [OF i, of n]
  have l1: "length cs1 = n" using step(1) by (simp add: length_selectChunks)
  have c1: "cs1 = ringSlots (unat i) n" using r step(1) by simp
  have j: "unat j = (unat i + n) mod 12" using r step(2) by simp
  show "j < MCUBES_CHUNK_COUNT" using r step(2) by simp
  have "ringSlots (unat i) (n + length cs2) = cs1 @ cs2"
    using c1 rest(1) j by (simp add: ringSlots_append)
  then show "cs1 @ cs2 = ringSlots (unat i) (length (cs1 @ cs2))"
    by (simp add: l1)
  show "unat k = (unat i + length (cs1 @ cs2)) mod 12"
    using rest(2) j l1 by (simp add: mod_simps add.assoc)
qed

lemma twoQueuesBatches_ring:
  assumes "twoQueuesBatches ps B C batches st = Inr (st', subs)"
    and "s_mcubesChunkIndex (tql_statics st) < MCUBES_CHUNK_COUNT"
  shows "concat (map tq_chunkPointerArray subs)
           = ringSlots (unat (s_mcubesChunkIndex (tql_statics st)))
               (length (concat (map tq_chunkPointerArray subs)))
     \<and> unat (s_mcubesChunkIndex (tql_statics st'))
           = (unat (s_mcubesChunkIndex (tql_statics st))
                + length (concat (map tq_chunkPointerArray subs))) mod 12
     \<and> s_mcubesChunkIndex (tql_statics st') < MCUBES_CHUNK_COUNT"
  using assms
proof (induction batches arbitrary: st subs)
  case Nil
  then show ?case
    by (simp add: ringSlots_0 word_less_nat_alt MCUBES_CHUNK_COUNT_def)
next
  case (Cons batch rest)
  from Cons.prems(1) show ?case
  proof (rule twoQueuesBatches_Cons)
    fix st1 sub subs'
    assume a: "twoQueuesBatch ps B C batch st = Inr (st1, sub)"
      "twoQueuesBatches ps B C rest st1 = Inr (st', subs')" "subs = sub # subs'"
    note c = twoQueuesBatch_submit(1) [OF a(1)] and j = twoQueuesBatch_Inr(3) [OF a(1)]
    have j12: "s_mcubesChunkIndex (tql_statics st1) < MCUBES_CHUNK_COUNT"
      using selectChunks_ring [OF Cons.prems(2)] j by simp
    note IH = Cons.IH [OF a(2) j12]
    have e: "concat (map tq_chunkPointerArray subs) = tq_chunkPointerArray sub @ concat (map tq_chunkPointerArray subs')"
      using a(3) by simp
    note w = ring_walk_step(1,2) [OF Cons.prems(2) c j conjunct1 [OF IH]
        conjunct1 [OF conjunct2 [OF IH]]]
    show ?thesis
      unfolding e using w IH by blast
  qed
qed

lemma gctBatches_ring:
  assumes "gctBatches ps B C batches st = Inr (st', subs)"
    and "s_mcubesChunkIndex (gl_statics st) < MCUBES_CHUNK_COUNT"
  shows "concat (map gct_chunkPointerArray subs)
           = ringSlots (unat (s_mcubesChunkIndex (gl_statics st)))
               (length (concat (map gct_chunkPointerArray subs)))
     \<and> unat (s_mcubesChunkIndex (gl_statics st'))
           = (unat (s_mcubesChunkIndex (gl_statics st))
                + length (concat (map gct_chunkPointerArray subs))) mod 12
     \<and> s_mcubesChunkIndex (gl_statics st') < MCUBES_CHUNK_COUNT"
  using assms
proof (induction batches arbitrary: st subs)
  case Nil
  then show ?case
    by (simp add: ringSlots_0 word_less_nat_alt MCUBES_CHUNK_COUNT_def)
next
  case (Cons batch rest)
  from Cons.prems(1) show ?case
  proof (rule gctBatches_Cons)
    fix st1 sub subs'
    assume a: "gctBatch ps B C batch st = Inr (st1, sub)"
      "gctBatches ps B C rest st1 = Inr (st', subs')" "subs = sub # subs'"
    note c = gctBatch_submit(1) [OF a(1)] and j = gctBatch_Inr(9) [OF a(1)]
    have j12: "s_mcubesChunkIndex (gl_statics st1) < MCUBES_CHUNK_COUNT"
      using selectChunks_ring [OF Cons.prems(2)] j by simp
    note IH = Cons.IH [OF a(2) j12]
    have e: "concat (map gct_chunkPointerArray subs) = gct_chunkPointerArray sub @ concat (map gct_chunkPointerArray subs')"
      using a(3) by simp
    note w = ring_walk_step(1,2) [OF Cons.prems(2) c j conjunct1 [OF IH]
        conjunct1 [OF conjunct2 [OF IH]]]
    show ?thesis
      unfolding e using w IH by blast
  qed
qed

lemma respondToGuiEvents_fields:
  assumes "respondToGuiEvents c pGui s = (evs, pGui', s')"
  shows "s_upcomingTimelineValue s' = s_upcomingTimelineValue s"
    and "g_mcubesChunkArray s' = g_mcubesChunkArray s"
    and "s_mcubesChunkIndex s' = s_mcubesChunkIndex s"
    and "s_frameComputePoolWaitTimelineValues s' = s_frameComputePoolWaitTimelineValues s"
    and "s_frameGraphicsPoolWaitTimelineValues s' = s_frameGraphicsPoolWaitTimelineValues s"
    and "g_frameNumber s' = g_frameNumber s"
    and "s_useComputeQueue s' = m_wantComputeQueue pGui"
    and "getMcubesJobs pGui' = getMcubesJobs pGui"
    and "m_batchSize pGui' = m_batchSize pGui"
    and "m_wantComputeQueue pGui' = m_wantComputeQueue pGui"
    and "concat (map eventChunks evs) = []"
    and "concat (map eventTwoQueuesSubmits evs) = []"
  using assms
  by (auto simp: respondToGuiEvents_def computeReplaceEquation_def setupMcubesImagePipeline_def
        Let_def split: if_splits option.splits prod.splits)

lemma twoQueues_frame_ring:
  assumes "computeDrawCommandsTwoQueues pGui s = Inr (s', subs)"
    and "s_mcubesChunkIndex s < MCUBES_CHUNK_COUNT"
  shows "concat (map tq_chunkPointerArray subs)
           = ringSlots (unat (s_mcubesChunkIndex s)) (length (concat (map tq_chunkPointerArray subs)))
     \<and> unat (s_mcubesChunkIndex s')
           = (unat (s_mcubesChunkIndex s) + length (concat (map tq_chunkPointerArray subs))) mod 12
     \<and> s_mcubesChunkIndex s' < MCUBES_CHUNK_COUNT"
proof -
  from assms(1) obtain st' where
    l: "twoQueuesBatches (getMcubesJobs pGui) (batchSizeOf (m_batchSize pGui))
       (batchCountOf (length (getMcubesJobs pGui)) (batchSizeOf (m_batchSize pGui)))
       (batchNumbers (batchCountOf (length (getMcubesJobs pGui)) (batchSizeOf (m_batchSize pGui))))
       \<lparr> tql_statics = s, tql_nextCmdBufIndex = 0, tql_computeWaitTimelineValue = 0 \<rparr>
     = Inr (st', subs)"
    and s': "s' = tql_statics st'"
    by (rule twoQueues_frame_Inr)
  show ?thesis
    using twoQueuesBatches_ring [OF l] assms(2) s' by simp
qed

lemma gct_frame_ring:
  assumes "computeDrawCommandsGctOnly pGui s = Inr (s', subs)"
    and "s_mcubesChunkIndex s < MCUBES_CHUNK_COUNT"
  shows "concat (map gct_chunkPointerArray subs)
           = ringSlots (unat (s_mcubesChunkIndex s)) (length (concat (map gct_chunkPointerArray subs)))
     \<and> unat (s_mcubesChunkIndex s')
           = (unat (s_mcubesChunkIndex s) + length (concat (map gct_chunkPointerArray subs))) mod 12
     \<and> s_mcubesChunkIndex s' < MCUBES_CHUNK_COUNT"
proof -
  from assms(1) obtain st' where
    l: "gctBatches (getMcubesJobs pGui) (batchSizeOf (m_batchSize pGui))
       (batchCountOf (length (getMcubesJobs pGui)) (batchSizeOf (m_batchSize pGui)))
       (batchNumbers (batchCountOf (length (getMcubesJobs pGui)) (batchSizeOf (m_batchSize pGui))))
       \<lparr> gl_statics = s, gl_nextCmdBufIndex = 0 \<rparr>
     = Inr (st', subs)"
    and s': "s' = gl_statics st'"
    by (rule gct_frame_Inr)
  show ?thesis
    using gctBatches_ring [OF l] assms(2) s' by simp
qed

lemma twoQueues_frame_length:
  assumes "computeDrawCommandsTwoQueues pGui s = Inr (s', subs)"
  shows "length subs = unat (batchCountOf (length (getMcubesJobs pGui)) (batchSizeOf (m_batchSize pGui)))"
proof -
  from assms(1) obtain st' where
    l: "twoQueuesBatches (getMcubesJobs pGui) (batchSizeOf (m_batchSize pGui))
       (batchCountOf (length (getMcubesJobs pGui)) (batchSizeOf (m_batchSize pGui)))
       (batchNumbers (batchCountOf (length (getMcubesJobs pGui)) (batchSizeOf (m_batchSize pGui))))
       \<lparr> tql_statics = s, tql_nextCmdBufIndex = 0, tql_computeWaitTimelineValue = 0 \<rparr>
     = Inr (st', subs)"
    by (rule twoQueues_frame_Inr)
  show ?thesis
    using twoQueuesBatches_length [OF l] by (simp add: length_batchNumbers)
qed

lemma twoQueues_frame_signals:
  assumes "computeDrawCommandsTwoQueues pGui s = Inr (s', subs)"
  shows "s_upcomingTimelineValue s' = s_upcomingTimelineValue s + word_of_nat (length subs)"
    and "map tq_computeSignalTimelineValue subs
           = map (\<lambda>k. s_upcomingTimelineValue s + word_of_nat k) [0..<length subs]"
    and "map tq_graphicsWaitTimelineValue subs = map tq_computeSignalTimelineValue subs"
    and "map tq_graphicsSignalTimelineValue subs = map tq_computeSignalTimelineValue subs"
    and "\<forall>sub \<in> set subs. tq_computeWaitTimelineValue sub < tq_computeSignalTimelineValue sub"
proof -
  from assms(1) obtain st' where
    l: "twoQueuesBatches (getMcubesJobs pGui) (batchSizeOf (m_batchSize pGui))
       (batchCountOf (length (getMcubesJobs pGui)) (batchSizeOf (m_batchSize pGui)))
       (batchNumbers (batchCountOf (length (getMcubesJobs pGui)) (batchSizeOf (m_batchSize pGui))))
       \<lparr> tql_statics = s, tql_nextCmdBufIndex = 0, tql_computeWaitTimelineValue = 0 \<rparr>
     = Inr (st', subs)"
    and s': "s' = tql_statics st'"
    by (rule twoQueues_frame_Inr)
  have len: "length (batchNumbers (batchCountOf (length (getMcubesJobs pGui)) (batchSizeOf (m_batchSize pGui))))
      = length subs"
    using twoQueuesBatches_length [OF l] by simp
  show "s_upcomingTimelineValue s' = s_upcomingTimelineValue s + word_of_nat (length subs)"
    using twoQueuesBatches_signals(1) [OF l] s' len by simp
  show "map tq_computeSignalTimelineValue subs
           = map (\<lambda>k. s_upcomingTimelineValue s + word_of_nat k) [0..<length subs]"
    using twoQueuesBatches_signals(2) [OF l] len by simp
  show "map tq_graphicsWaitTimelineValue subs = map tq_computeSignalTimelineValue subs"
    by (rule twoQueuesBatches_signals(3) [OF l])
  show "map tq_graphicsSignalTimelineValue subs = map tq_computeSignalTimelineValue subs"
    by (rule twoQueuesBatches_signals(4) [OF l])
  show "\<forall>sub \<in> set subs. tq_computeWaitTimelineValue sub < tq_computeSignalTimelineValue sub"
    using twoQueuesBatches_wait_less_signal [OF l] by blast
qed

lemma mainLoopIteration_Inr:
  assumes "mainLoopIteration c pGui s = Inr (pGui', s', evs)"
  obtains pre s0 where
    "respondToGuiEvents c pGui (s\<lparr> g_frameNumber := g_frameNumber s + 1 \<rparr>) = (pre, pGui', s0)"
    and "(m_wantComputeQueue pGui
           \<and> (\<exists>subs. computeDrawCommandsTwoQueues pGui' s0 = Inr (s', subs)
                 \<and> evs = pre @ [TwoQueuesFrame subs]))
       \<or> (\<not> m_wantComputeQueue pGui
           \<and> (\<exists>subs. computeDrawCommandsGctOnly pGui' s0 = Inr (s', subs)
                 \<and> evs = pre @ [GctOnlyFrame subs]))"
proof -
  obtain pre g0 s0 where
    r: "respondToGuiEvents c pGui (s\<lparr> g_frameNumber := g_frameNumber s + 1 \<rparr>) = (pre, g0, s0)"
    by (metis prod_cases3)
  have q: "s_useComputeQueue s0 = m_wantComputeQueue pGui"
    by (rule respondToGuiEvents_fields(7) [OF r])
  have g0: "g0 = pGui'"
    using assms r by (auto simp: mainLoopIteration_def split: if_splits sum.splits)
  have "(m_wantComputeQueue pGui
           \<and> (\<exists>subs. computeDrawCommandsTwoQueues pGui' s0 = Inr (s', subs)
                 \<and> evs = pre @ [TwoQueuesFrame subs]))
       \<or> (\<not> m_wantComputeQueue pGui
           \<and> (\<exists>subs. computeDrawCommandsGctOnly pGui' s0 = Inr (s', subs)
                 \<and> evs = pre @ [GctOnlyFrame subs]))"
    using assms r q by (auto simp: mainLoopIteration_def split: if_splits sum.splits)
  then show ?thesis using that r g0 by blast
qed

lemma mainLoop_Cons:
  assumes "mainLoop c (pGui # rest) s = Inr (s'', evs)"
  obtains pGui' s' evs1 evs2 where "mainLoopIteration c pGui s = Inr (pGui', s', evs1)"
    and "mainLoop c rest s' = Inr (s'', evs2)" and "evs = evs1 @ evs2"
  using assms by (auto split: sum.splits)

text \<open>One iteration of the main loop keeps the invariants.\<close>

lemma mainLoopIteration_invariant:
  assumes ok: "arraysOk s" and ahead: "clockAhead s"
    and nowrap: "unat (s_upcomingTimelineValue s) + twoQueuesBatchTotal [pGui] < 2 ^ 64"
  shows "\<exists>pGui' s' evs. mainLoopIteration c pGui s = Inr (pGui', s', evs)
     \<and> arraysOk s' \<and> clockAhead s'
     \<and> unat (s_upcomingTimelineValue s')
          = unat (s_upcomingTimelineValue s) + twoQueuesBatchTotal [pGui]"
proof -
  obtain pre g0 s0 where
    r: "respondToGuiEvents c pGui (s\<lparr> g_frameNumber := g_frameNumber s + 1 \<rparr>) = (pre, g0, s0)"
    by (metis prod_cases3)
  note f = respondToGuiEvents_fields [OF r]
  have ok0: "arraysOk s0" using ok f(2,3) by (simp add: arraysOk_def)
  have ahead0: "clockAhead s0" using ahead f(1,2) by (simp add: clockAhead_def)
  have u0: "s_upcomingTimelineValue s0 = s_upcomingTimelineValue s" using f(1) by simp
  show ?thesis
  proof (cases "m_wantComputeQueue pGui")
    case True
    have nw: "unat (s_upcomingTimelineValue s0)
        + unat (batchCountOf (length (getMcubesJobs g0)) (batchSizeOf (m_batchSize g0))) < 2 ^ 64"
      using nowrap True u0 f(8,9) by simp
    obtain s' subs where fr: "computeDrawCommandsTwoQueues g0 s0 = Inr (s', subs)"
      and post: "arraysOk s'" "clockAhead s'"
        "unat (s_upcomingTimelineValue s') = unat (s_upcomingTimelineValue s0) + length subs"
      using twoQueues_frame_invariant [OF ok0 ahead0 nw] by blast
    have "length subs = twoQueuesBatchTotal [pGui]"
      using twoQueues_frame_length [OF fr] True f(8,9) by simp
    then show ?thesis
      using r fr post u0 True f(7) by (simp add: mainLoopIteration_def)
  next
    case False
    obtain s' subs where fr: "computeDrawCommandsGctOnly g0 s0 = Inr (s', subs)"
      using gct_frame_succeeds by blast
    from fr obtain st' where
      l: "gctBatches (getMcubesJobs g0) (batchSizeOf (m_batchSize g0))
         (batchCountOf (length (getMcubesJobs g0)) (batchSizeOf (m_batchSize g0)))
         (batchNumbers (batchCountOf (length (getMcubesJobs g0)) (batchSizeOf (m_batchSize g0))))
         \<lparr> gl_statics = s0, gl_nextCmdBufIndex = 0 \<rparr>
       = Inr (st', subs)"
      and s': "s' = gl_statics st'"
      by (rule gct_frame_Inr)
    note g = gctBatches_frame [OF l]
    have idx: "s_mcubesChunkIndex s' < MCUBES_CHUNK_COUNT"
      using gct_frame_ring [OF fr] ok0 by (simp add: arraysOk_def)
    have ok': "arraysOk s'" using ok0 g s' idx by (simp add: arraysOk_def)
    have ahead': "clockAhead s'" using ahead0 g s' by (simp add: clockAhead_def)
    have "s_upcomingTimelineValue s' = s_upcomingTimelineValue s" using g s' u0 by simp
    then show ?thesis
      using r fr ok' ahead' False f(7) by (simp add: mainLoopIteration_def)
  qed
qed

lemma mainLoop_invariant:
  assumes "arraysOk s" and "clockAhead s"
    and "unat (s_upcomingTimelineValue s) + twoQueuesBatchTotal guis < 2 ^ 64"
  shows "\<exists>s' evs. mainLoop c guis s = Inr (s', evs)
     \<and> arraysOk s' \<and> clockAhead s'
     \<and> unat (s_upcomingTimelineValue s')
          = unat (s_upcomingTimelineValue s) + twoQueuesBatchTotal guis"
  using assms
proof (induction guis arbitrary: s)
  case Nil
  then show ?case by simp
next
  case (Cons pGui rest)
  have nw1: "unat (s_upcomingTimelineValue s) + twoQueuesBatchTotal [pGui] < 2 ^ 64"
    using Cons.prems(3) by simp
  obtain g1 s1 evs1 where it: "mainLoopIteration c pGui s = Inr (g1, s1, evs1)"
    and p1: "arraysOk s1" "clockAhead s1"
      "unat (s_upcomingTimelineValue s1) = unat (s_upcomingTimelineValue s) + twoQueuesBatchTotal [pGui]"
    using mainLoopIteration_invariant [OF Cons.prems(1,2) nw1] by blast
  have nw2: "unat (s_upcomingTimelineValue s1) + twoQueuesBatchTotal rest < 2 ^ 64"
    using Cons.prems(3) p1(3) by simp
  obtain s' evs2 where r: "mainLoop c rest s1 = Inr (s', evs2)"
    and p2: "arraysOk s'" "clockAhead s'"
      "unat (s_upcomingTimelineValue s') = unat (s_upcomingTimelineValue s1) + twoQueuesBatchTotal rest"
    using Cons.IH [OF p1(1,2) nw2] by blast
  show ?case
    using it r p2 p1(3) by simp
qed

text \<open>Facts about the events of a run that completed.\<close>

lemma mainLoopIteration_events:
  assumes "mainLoopIteration c pGui s = Inr (pGui', s', evs)"
  shows "\<forall>sub \<in> set (concat (map eventTwoQueuesSubmits evs)).
           tq_computeWaitTimelineValue sub < tq_computeSignalTimelineValue sub"
    and "s_upcomingTimelineValue s'
           = s_upcomingTimelineValue s + word_of_nat (length (concat (map eventTwoQueuesSubmits evs)))"
    and "map tq_computeSignalTimelineValue (concat (map eventTwoQueuesSubmits evs))
           = map (\<lambda>k. s_upcomingTimelineValue s + word_of_nat k)
               [0..<length (concat (map eventTwoQueuesSubmits evs))]"
    and "map tq_graphicsSignalTimelineValue (concat (map eventTwoQueuesSubmits evs))
           = map tq_computeSignalTimelineValue (concat (map eventTwoQueuesSubmits evs))"
    and "map tq_graphicsWaitTimelineValue (concat (map eventTwoQueuesSubmits evs))
           = map tq_computeSignalTimelineValue (concat (map eventTwoQueuesSubmits evs))"
    and "length (concat (map eventTwoQueuesSubmits evs)) = twoQueuesBatchTotal [pGui]"
proof -
  from assms obtain pre s0 where
    r: "respondToGuiEvents c pGui (s\<lparr> g_frameNumber := g_frameNumber s + 1 \<rparr>) = (pre, pGui', s0)"
    and d: "(m_wantComputeQueue pGui
           \<and> (\<exists>subs. computeDrawCommandsTwoQueues pGui' s0 = Inr (s', subs)
                 \<and> evs = pre @ [TwoQueuesFrame subs]))
       \<or> (\<not> m_wantComputeQueue pGui
           \<and> (\<exists>subs. computeDrawCommandsGctOnly pGui' s0 = Inr (s', subs)
                 \<and> evs = pre @ [GctOnlyFrame subs]))"
    by (rule mainLoopIteration_Inr)
  note f = respondToGuiEvents_fields [OF r]
  have u0: "s_upcomingTimelineValue s0 = s_upcomingTimelineValue s" using f(1) by simp
  from d have "(\<forall>sub \<in> set (concat (map eventTwoQueuesSubmits evs)).
           tq_computeWaitTimelineValue sub < tq_computeSignalTimelineValue sub)
    \<and> s_upcomingTimelineValue s'
           = s_upcomingTimelineValue s + word_of_nat (length (concat (map eventTwoQueuesSubmits evs)))
    \<and> map tq_computeSignalTimelineValue (concat (map eventTwoQueuesSubmits evs))
           = map (\<lambda>k. s_upcomingTimelineValue s + word_of_nat k)
               [0..<length (concat (map eventTwoQueuesSubmits evs))]
    \<and> map tq_graphicsSignalTimelineValue (concat (map eventTwoQueuesSubmits evs))
           = map tq_computeSignalTimelineValue (concat (map eventTwoQueuesSubmits evs))
    \<and> map tq_graphicsWaitTimelineValue (concat (map eventTwoQueuesSubmits evs))
           = map tq_computeSignalTimelineValue (concat (map eventTwoQueuesSubmits evs))
    \<and> length (concat (map eventTwoQueuesSubmits evs)) = twoQueuesBatchTotal [pGui]"
  proof (elim disjE conjE exE)
    fix subs
    assume w: "m_wantComputeQueue pGui"
      and fr: "computeDrawCommandsTwoQueues pGui' s0 = Inr (s', subs)"
      and e: "evs = pre @ [TwoQueuesFrame subs]"
    have c: "concat (map eventTwoQueuesSubmits evs) = subs"
      using e f(12) by simp
    show ?thesis
      unfolding c
      using twoQueues_frame_signals [OF fr] twoQueues_frame_length [OF fr] u0 w f(8,9)
      by simp
  next
    fix subs
    assume w: "\<not> m_wantComputeQueue pGui"
      and fr: "computeDrawCommandsGctOnly pGui' s0 = Inr (s', subs)"
      and e: "evs = pre @ [GctOnlyFrame subs]"
    have c: "concat (map eventTwoQueuesSubmits evs) = []"
      using e f(12) by simp
    from fr obtain st' where
      l: "gctBatches (getMcubesJobs pGui') (batchSizeOf (m_batchSize pGui'))
         (batchCountOf (length (getMcubesJobs pGui')) (batchSizeOf (m_batchSize pGui')))
         (batchNumbers (batchCountOf (length (getMcubesJobs pGui')) (batchSizeOf (m_batchSize pGui'))))
         \<lparr> gl_statics = s0, gl_nextCmdBufIndex = 0 \<rparr>
       = Inr (st', subs)"
      and s': "s' = gl_statics st'"
      by (rule gct_frame_Inr)
    show ?thesis
      unfolding c using gctBatches_frame [OF l] s' u0 w by simp
  qed
  then show
    "\<forall>sub \<in> set (concat (map eventTwoQueuesSubmits evs)).
           tq_computeWaitTimelineValue sub < tq_computeSignalTimelineValue sub"
    "s_upcomingTimelineValue s'
           = s_upcomingTimelineValue s + word_of_nat (length (concat (map eventTwoQueuesSubmits evs)))"
    "map tq_computeSignalTimelineValue (concat (map eventTwoQueuesSubmits evs))
           = map (\<lambda>k. s_upcomingTimelineValue s + word_of_nat k)
               [0..<length (concat (map eventTwoQueuesSubmits evs))]"
    "map tq_graphicsSignalTimelineValue (concat (map eventTwoQueuesSubmits evs))
           = map tq_computeSignalTimelineValue (concat (map eventTwoQueuesSubmits evs))"
    "map tq_graphicsWaitTimelineValue (concat (map eventTwoQueuesSubmits evs))
           = map tq_computeSignalTimelineValue (concat (map eventTwoQueuesSubmits evs))"
    "length (concat (map eventTwoQueuesSubmits evs)) = twoQueuesBatchTotal [pGui]"
    by blast+
qed

lemma clock_values_append:
  "map (\<lambda>k. (u :: u64) + word_of_nat k) [0..<m + n]
     = map (\<lambda>k. u + word_of_nat k) [0..<m] @ map (\<lambda>k. (u + word_of_nat m) + word_of_nat k) [0..<n]"
proof -
  have "[0..<m + n] = [0..<m] @ [m..<m + n]"
    using upt_add_eq_append [of 0 m n] by simp
  also have "[m..<m + n] = map (\<lambda>k. k + m) [0..<n]"
    by (simp add: map_add_upt add.commute)
  finally have "[0..<m + n] = [0..<m] @ map (\<lambda>k. k + m) [0..<n]" .
  moreover have "u + word_of_nat (k + m) = u + word_of_nat m + word_of_nat k" for k
    by (simp add: ac_simps)
  ultimately show ?thesis
    by (simp only: map_append map_map comp_def)
qed

lemma clock_values_increasing:
  assumes "unat (u :: u64) + n \<le> 2 ^ 64"
  shows "sorted_wrt (<) (map (\<lambda>k. u + word_of_nat k) [0..<n])"
proof -
  have v: "unat (u + word_of_nat k) = unat u + k" if "k < n" for k
  proof -
    have k: "k < 2 ^ 64" using that assms by linarith
    then have "unat (word_of_nat k :: u64) = k" by (simp add: unat_of_nat)
    moreover have "unat u + k < 2 ^ 64" using that assms by linarith
    ultimately show ?thesis
      using unat_add_lem [of u "word_of_nat k"] by simp
  qed
  have "u + word_of_nat i < u + word_of_nat j" if "i < j" "j < n" for i j
    using that v [of i] v [of j] by (simp add: word_less_nat_alt)
  then show ?thesis
    by (simp add: sorted_wrt_iff_nth_less)
qed

lemma initial_clock: "s_upcomingTimelineValue (initialStatics p q) = 1"
  by (simp add: initialStatics_def)

lemma mainLoop_events:
  assumes "mainLoop c guis s = Inr (s', evs)"
  shows "(\<forall>sub \<in> set (concat (map eventTwoQueuesSubmits evs)).
           tq_computeWaitTimelineValue sub < tq_computeSignalTimelineValue sub)
    \<and> s_upcomingTimelineValue s'
           = s_upcomingTimelineValue s + word_of_nat (length (concat (map eventTwoQueuesSubmits evs)))
    \<and> map tq_computeSignalTimelineValue (concat (map eventTwoQueuesSubmits evs))
           = map (\<lambda>k. s_upcomingTimelineValue s + word_of_nat k)
               [0..<length (concat (map eventTwoQueuesSubmits evs))]
    \<and> map tq_graphicsSignalTimelineValue (concat (map eventTwoQueuesSubmits evs))
           = map tq_computeSignalTimelineValue (concat (map eventTwoQueuesSubmits evs))
    \<and> map tq_graphicsWaitTimelineValue (concat (map eventTwoQueuesSubmits evs))
           = map tq_computeSignalTimelineValue (concat (map eventTwoQueuesSubmits evs))
    \<and> length (concat (map eventTwoQueuesSubmits evs)) = twoQueuesBatchTotal guis"
  using assms
proof (induction guis arbitrary: s evs)
  case Nil
  then show ?case by simp
next
  case (Cons pGui rest)
  from Cons.prems show ?case
  proof (rule mainLoop_Cons)
    fix g1 s1 evs1 evs2
    assume it: "mainLoopIteration c pGui s = Inr (g1, s1, evs1)"
      and r: "mainLoop c rest s1 = Inr (s', evs2)" and e: "evs = evs1 @ evs2"
    define a where "a = concat (map eventTwoQueuesSubmits evs1)"
    define b where "b = concat (map eventTwoQueuesSubmits evs2)"
    define u where "u = s_upcomingTimelineValue s"
    define u1 where "u1 = s_upcomingTimelineValue s1"
    note f = mainLoopIteration_events [OF it, folded a_def u_def u1_def]
    note IH = Cons.IH [OF r, folded b_def u1_def]
    have IH1: "\<forall>sub \<in> set b. tq_computeWaitTimelineValue sub < tq_computeSignalTimelineValue sub"
      and IH2: "s_upcomingTimelineValue s' = u1 + word_of_nat (length b)"
      and IH3: "map tq_computeSignalTimelineValue b = map (\<lambda>k. u1 + word_of_nat k) [0..<length b]"
      and IH4: "map tq_graphicsSignalTimelineValue b = map tq_computeSignalTimelineValue b"
      and IH5: "map tq_graphicsWaitTimelineValue b = map tq_computeSignalTimelineValue b"
      and IH6: "length b = twoQueuesBatchTotal rest"
      using IH by blast+
    have c: "concat (map eventTwoQueuesSubmits evs) = a @ b"
      unfolding e a_def b_def by simp
    have 1: "\<forall>sub \<in> set (a @ b).
           tq_computeWaitTimelineValue sub < tq_computeSignalTimelineValue sub"
      using f(1) IH1 by (metis Un_iff set_append)
    have 2: "s_upcomingTimelineValue s' = u + word_of_nat (length (a @ b))"
      unfolding IH2 f(2) by (simp add: add.assoc)
    have "map tq_computeSignalTimelineValue (a @ b)
           = map (\<lambda>k. u + word_of_nat k) [0..<length a]
             @ map (\<lambda>k. (u + word_of_nat (length a)) + word_of_nat k) [0..<length b]"
      unfolding map_append f(3) IH3 f(2) ..
    also have "\<dots> = map (\<lambda>k. u + word_of_nat k) [0..<length a + length b]"
      by (rule clock_values_append [symmetric])
    finally have 3: "map tq_computeSignalTimelineValue (a @ b)
           = map (\<lambda>k. u + word_of_nat k) [0..<length (a @ b)]"
      by (simp only: length_append)
    have 4: "map tq_graphicsSignalTimelineValue (a @ b) = map tq_computeSignalTimelineValue (a @ b)"
      unfolding map_append f(4) IH4 ..
    have 5: "map tq_graphicsWaitTimelineValue (a @ b) = map tq_computeSignalTimelineValue (a @ b)"
      unfolding map_append f(5) IH5 ..
    have 6: "length (a @ b) = twoQueuesBatchTotal (pGui # rest)"
      using f(6) IH6 by simp
    show ?thesis
      unfolding c u_def [symmetric] using 1 2 3 4 5 6 by blast
  qed
qed

lemma ring_walk_append:
  assumes "cs1 = ringSlots i (length cs1)" and "j mod 12 = (i + length cs1) mod 12"
    and "cs2 = ringSlots j (length cs2)"
  shows "cs1 @ cs2 = ringSlots i (length (cs1 @ cs2))"
proof -
  have "ringSlots j (length cs2) = ringSlots ((i + length cs1) mod 12) (length cs2)"
    using assms(2) ringSlots_mod [of j "length cs2"] ringSlots_mod [of "(i + length cs1) mod 12" "length cs2"]
    by simp
  then have "ringSlots i (length cs1 + length cs2) = cs1 @ cs2"
    using assms(1,3) by (simp add: ringSlots_append)
  then show ?thesis by simp
qed

lemma mainLoopIteration_ring:
  assumes it: "mainLoopIteration c pGui s = Inr (pGui', s', evs)"
    and idx: "s_mcubesChunkIndex s < MCUBES_CHUNK_COUNT"
  shows "concat (map eventChunks evs)
           = ringSlots (unat (s_mcubesChunkIndex s)) (length (concat (map eventChunks evs)))
     \<and> unat (s_mcubesChunkIndex s')
           = (unat (s_mcubesChunkIndex s) + length (concat (map eventChunks evs))) mod 12
     \<and> s_mcubesChunkIndex s' < MCUBES_CHUNK_COUNT"
proof -
  from it obtain pre s0 where
    r: "respondToGuiEvents c pGui (s\<lparr> g_frameNumber := g_frameNumber s + 1 \<rparr>) = (pre, pGui', s0)"
    and d: "(m_wantComputeQueue pGui
           \<and> (\<exists>subs. computeDrawCommandsTwoQueues pGui' s0 = Inr (s', subs)
                 \<and> evs = pre @ [TwoQueuesFrame subs]))
       \<or> (\<not> m_wantComputeQueue pGui
           \<and> (\<exists>subs. computeDrawCommandsGctOnly pGui' s0 = Inr (s', subs)
                 \<and> evs = pre @ [GctOnlyFrame subs]))"
    by (rule mainLoopIteration_Inr)
  note f = respondToGuiEvents_fields [OF r]
  have i0: "s_mcubesChunkIndex s0 = s_mcubesChunkIndex s" using f(3) by simp
  have idx0: "s_mcubesChunkIndex s0 < MCUBES_CHUNK_COUNT" using idx i0 by simp
  from d show ?thesis
  proof (elim disjE conjE exE)
    fix subs
    assume fr: "computeDrawCommandsTwoQueues pGui' s0 = Inr (s', subs)"
      and e: "evs = pre @ [TwoQueuesFrame subs]"
    have c: "concat (map eventChunks evs) = concat (map tq_chunkPointerArray subs)"
      using e f(11) by simp
    show ?thesis
      unfolding c using twoQueues_frame_ring [OF fr idx0] unfolding i0 .
  next
    fix subs
    assume fr: "computeDrawCommandsGctOnly pGui' s0 = Inr (s', subs)"
      and e: "evs = pre @ [GctOnlyFrame subs]"
    have c: "concat (map eventChunks evs) = concat (map gct_chunkPointerArray subs)"
      using e f(11) by simp
    show ?thesis
      unfolding c using gct_frame_ring [OF fr idx0] unfolding i0 .
  qed
qed

lemma mainLoop_ring:
  assumes "mainLoop c guis s = Inr (s', evs)"
    and "s_mcubesChunkIndex s < MCUBES_CHUNK_COUNT"
  shows "concat (map eventChunks evs)
           = ringSlots (unat (s_mcubesChunkIndex s)) (length (concat (map eventChunks evs)))
     \<and> unat (s_mcubesChunkIndex s')
           = (unat (s_mcubesChunkIndex s) + length (concat (map eventChunks evs))) mod 12
     \<and> s_mcubesChunkIndex s' < MCUBES_CHUNK_COUNT"
  using assms
proof (induction guis arbitrary: s evs)
  case Nil
  then show ?case
    by (simp add: ringSlots_0 word_less_nat_alt MCUBES_CHUNK_COUNT_def)
next
  case (Cons pGui rest)
  from Cons.prems(1) show ?case
  proof (rule mainLoop_Cons)
    fix g1 s1 evs1 evs2
    assume it: "mainLoopIteration c pGui s = Inr (g1, s1, evs1)"
      and r: "mainLoop c rest s1 = Inr (s', evs2)" and e: "evs = evs1 @ evs2"
    define a where "a = concat (map eventChunks evs1)"
    define b where "b = concat (map eventChunks evs2)"
    define i where "i = unat (s_mcubesChunkIndex s)"
    define j where "j = unat (s_mcubesChunkIndex s1)"
    note f = mainLoopIteration_ring [OF it Cons.prems(2), folded a_def i_def j_def]
    have f1: "a = ringSlots i (length a)" and f2: "j = (i + length a) mod 12"
      and f3: "s_mcubesChunkIndex s1 < MCUBES_CHUNK_COUNT"
      using f by blast+
    note IH = Cons.IH [OF r f3, folded b_def j_def]
    have IH1: "b = ringSlots j (length b)"
      and IH2: "unat (s_mcubesChunkIndex s') = (j + length b) mod 12"
      and IH3: "s_mcubesChunkIndex s' < MCUBES_CHUNK_COUNT"
      using IH by blast+
    have c: "concat (map eventChunks evs) = a @ b"
      unfolding e a_def b_def by simp
    have jm: "j mod 12 = (i + length a) mod 12" using f2 by simp
    have 1: "a @ b = ringSlots i (length (a @ b))"
      by (rule ring_walk_append [OF f1 jm IH1])
    have "(j + length b) mod 12 = (i + length a + length b) mod 12"
      using jm by (metis mod_add_left_eq)
    then have 2: "unat (s_mcubesChunkIndex s') = (i + length (a @ b)) mod 12"
      using IH2 by (simp add: add.assoc)
    show ?thesis
      unfolding c i_def [symmetric] using 1 2 IH3 by blast
  qed
qed

lemma ringSlots_pairs:
  assumes "cs = ringSlots i (length cs)" and "Suc k < length cs"
  shows "cs ! Suc k = (cs ! k + 1) mod 12"
proof -
  have "cs ! Suc k = ringSlots i (length cs) ! Suc k" using assms(1) by simp
  also have "\<dots> = (i + Suc (Suc k)) mod 12"
    using assms(2) by (simp add: ringSlots_def)
  also have "\<dots> = ((i + Suc k) mod 12 + 1) mod 12"
    by (simp add: mod_simps)
  also have "(i + Suc k) mod 12 = ringSlots i (length cs) ! k"
    using assms(2) by (simp add: ringSlots_def)
  also have "\<dots> = cs ! k" using assms(1) by simp
  finally show ?thesis .
qed

lemma initial_cursor: "s_mcubesChunkIndex (initialStatics p q) = 0"
  by (simp add: initialStatics_def)

lemma example_frame_64:
  "(case computeDrawCommandsTwoQueues (guiWith True 6 [0..<64::nat]) (initialStatics (ComputePipeline 0) True) of
      Inl e \<Rightarrow> None
    | Inr (s, subs) \<Rightarrow> Some (s_upcomingTimelineValue s, map tq_chunkPointerArray subs,
         map tq_computeSignalTimelineValue subs))
   = Some (12, [[1, 2, 3, 4, 5, 6], [7, 8, 9, 10, 11, 0], [1, 2, 3, 4, 5, 6], [7, 8, 9, 10, 11, 0],
        [1, 2, 3, 4, 5, 6], [7, 8, 9, 10, 11, 0], [1, 2, 3, 4, 5, 6], [7, 8, 9, 10, 11, 0],
        [1, 2, 3, 4, 5, 6], [7, 8, 9, 10, 11, 0], [1, 2, 3, 4]],
       [1, 2, 3, 4, 5, 6, 7, 8, 9, 10, 11])"
  by code_simp

lemma example_run_total:
  "twoQueuesBatchTotal [guiWith True 6 [0..<64::nat], guiWith False 6 [0..<64], guiWith True 2 [0..<64]] = 43"
  by (simp add: guiWith_def batchSizeOf_def clamp_u32_def MCUBES_MAX_CHUNKS_PER_BATCH_def batchCountOf_def)

section \<open>Timeline values after a frame\<close>

lemma lastSignal_unused:
  "\<forall>c \<in> set subs. i \<notin> set (tq_chunkPointerArray c) \<Longrightarrow> lastSignal i subs v = v"
  by (induction subs arbitrary: v) simp_all

lemma lastSignal_last_user:
  assumes "i \<in> set (tq_chunkPointerArray sub)"
    and "\<forall>c \<in> set post. i \<notin> set (tq_chunkPointerArray c)"
  shows "lastSignal i (pre @ sub # post) v = tq_graphicsSignalTimelineValue sub"
  using assms
  by (induction pre arbitrary: v) (simp_all add: lastSignal_unused)

lemma twoQueuesBatches_timeline:
  assumes "twoQueuesBatches ps B C batches st = Inr (st', subs)"
    and "i < length (g_mcubesChunkArray (tql_statics st))"
  shows "timelineValue (g_mcubesChunkArray (tql_statics st') ! i)
           = lastSignal i subs (timelineValue (g_mcubesChunkArray (tql_statics st) ! i))
     \<and> length (g_mcubesChunkArray (tql_statics st')) = length (g_mcubesChunkArray (tql_statics st))"
  using assms
proof (induction batches arbitrary: st subs)
  case Nil
  then show ?case by simp
next
  case (Cons batch rest)
  from Cons.prems(1) show ?case
  proof (rule twoQueuesBatches_Cons)
    fix st1 sub subs'
    assume a: "twoQueuesBatch ps B C batch st = Inr (st1, sub)"
      "twoQueuesBatches ps B C rest st1 = Inr (st', subs')" "subs = sub # subs'"
    note arr1 = twoQueuesBatch_Inr(2) [OF a(1)]
    have len1: "length (g_mcubesChunkArray (tql_statics st1)) = length (g_mcubesChunkArray (tql_statics st))"
      unfolding arr1 by (rule length_recordTimeline)
    have i1: "i < length (g_mcubesChunkArray (tql_statics st1))"
      using Cons.prems(2) len1 by simp
    have v1: "timelineValue (g_mcubesChunkArray (tql_statics st1) ! i)
        = (if i \<in> set (tq_chunkPointerArray sub) then tq_graphicsSignalTimelineValue sub
           else timelineValue (g_mcubesChunkArray (tql_statics st) ! i))"
      unfolding arr1 twoQueuesBatch_submit(7) [OF a(1)]
      by (rule recordTimeline_nth [OF Cons.prems(2)])
    note IH = Cons.IH [OF a(2) i1]
    show ?thesis
      using IH unfolding v1 len1 a(3) by simp
  qed
qed

lemma twoQueuesBatch_timeline:
  assumes r: "twoQueuesBatch ps B C batch st = Inr (st', sub)"
    and len: "length (g_mcubesChunkArray (tql_statics st)) = 12"
    and i: "i \<in> set (tq_chunkPointerArray sub)"
  shows "timelineValue (g_mcubesChunkArray (tql_statics st') ! i) = tq_graphicsSignalTimelineValue sub"
    and "tq_graphicsSignalTimelineValue sub = s_upcomingTimelineValue (tql_statics st)"
proof -
  have "i < 12"
    using i selectChunks_in_range unfolding twoQueuesBatch_submit(1) [OF r] by blast
  then have il: "i < length (g_mcubesChunkArray (tql_statics st))" using len by simp
  show "tq_graphicsSignalTimelineValue sub = s_upcomingTimelineValue (tql_statics st)"
    by (rule twoQueuesBatch_submit(7) [OF r])
  then show "timelineValue (g_mcubesChunkArray (tql_statics st') ! i) = tq_graphicsSignalTimelineValue sub"
    unfolding twoQueuesBatch_Inr(2) [OF r] using recordTimeline_nth [OF il] i by simp
qed

section \<open>Kernel replacement in the main loop\<close>

lemma replaceAfterIdle_append:
  assumes "replaceAfterIdle xs" and "replaceAfterIdle ys"
  shows "replaceAfterIdle (xs @ ys)"
  unfolding replaceAfterIdle_def
proof (intro allI impI)
  fix k eq success
  assume k: "k < length (xs @ ys)" and e: "(xs @ ys) ! k = ReplaceEquation eq success"
  show "0 < k \<and> (xs @ ys) ! (k - 1) = DeviceWaitIdle"
  proof (cases "k < length xs")
    case True
    then have "xs ! k = ReplaceEquation eq success" using e by (simp add: nth_append)
    then have "0 < k \<and> xs ! (k - 1) = DeviceWaitIdle"
      using assms(1) True unfolding replaceAfterIdle_def by blast
    moreover have "k - 1 < length xs" using True by simp
    ultimately show ?thesis by (simp add: nth_append)
  next
    case False
    then have k': "k - length xs < length ys" using k by simp
    have "ys ! (k - length xs) = ReplaceEquation eq success"
      using e False by (simp add: nth_append)
    then have y: "0 < k - length xs \<and> ys ! (k - length xs - 1) = DeviceWaitIdle"
      using assms(2) k' unfolding replaceAfterIdle_def by blast
    then have "\<not> k - 1 < length xs" by linarith
    then have "(xs @ ys) ! (k - 1) = ys ! (k - 1 - length xs)" by (simp add: nth_append)
    then show ?thesis using y by simp
  qed
qed

lemma replaceAfterIdle_single: "replaceAfterIdle [TwoQueuesFrame subs]" "replaceAfterIdle [GctOnlyFrame subs']"
  "replaceAfterIdle []" "replaceAfterIdle [DeviceWaitIdle]"
  "replaceAfterIdle [DeviceWaitIdle, ReplaceEquation eq ok]"
  by (simp_all add: replaceAfterIdle_def less_Suc_eq)

lemma computeReplaceEquation_failure:
  "fst (computeReplaceEquation c eq s) = False \<Longrightarrow> snd (computeReplaceEquation c eq s) = s"
  by (simp add: computeReplaceEquation_def setupMcubesImagePipeline_def split: option.splits)

lemma computeReplaceEquation_flag:
  "fst (computeReplaceEquation c eq s) = fst (computeReplaceEquation c eq s')"
  by (simp add: computeReplaceEquation_def setupMcubesImagePipeline_def split: option.splits)

lemma respondToGuiEvents_replace:
  assumes "respondToGuiEvents c pGui s = (evs, pGui', s')"
  shows "replaceAfterIdle evs"
    and "m_wantSetEquation pGui \<Longrightarrow>
           ReplaceEquation (m_equationInput pGui) (fst (computeReplaceEquation c (m_equationInput pGui) s))
             \<in> set evs
           \<and> m_compileFailure pGui' = (\<not> fst (computeReplaceEquation c (m_equationInput pGui) s))"
    and "\<not> m_wantSetEquation pGui \<Longrightarrow> ReplaceEquation eq ok \<notin> set evs"
    and "m_wantSetEquation pGui \<Longrightarrow> \<not> fst (computeReplaceEquation c (m_equationInput pGui) s) \<Longrightarrow>
           s_mcubesImagePipeline s' = s_mcubesImagePipeline s"
    and "\<not> m_wantSetEquation pGui \<Longrightarrow> s_mcubesImagePipeline s' = s_mcubesImagePipeline s"
    and "concat (map eventPipelines evs) = []"
proof -
  have e: "evs = (if m_wantComputeQueue pGui \<noteq> s_useComputeQueue s then [DeviceWaitIdle] else [])
      @ (if m_wantSetEquation pGui
         then [DeviceWaitIdle, ReplaceEquation (m_equationInput pGui)
                 (fst (computeReplaceEquation c (m_equationInput pGui) s))]
         else [])"
    using assms computeReplaceEquation_flag [of c "m_equationInput pGui" s]
    by (auto simp: respondToGuiEvents_def Let_def split_beta computeReplaceEquation_def
          setupMcubesImagePipeline_def split: if_splits option.splits)
  show "replaceAfterIdle evs"
    unfolding e by (intro replaceAfterIdle_append) (simp_all add: replaceAfterIdle_single)
  show "ReplaceEquation (m_equationInput pGui) (fst (computeReplaceEquation c (m_equationInput pGui) s))
             \<in> set evs
           \<and> m_compileFailure pGui' = (\<not> fst (computeReplaceEquation c (m_equationInput pGui) s))"
    if "m_wantSetEquation pGui"
    using that assms e
    by (auto simp: respondToGuiEvents_def Let_def split_beta computeReplaceEquation_def
          setupMcubesImagePipeline_def split: if_splits option.splits)
  show "ReplaceEquation eq ok \<notin> set evs" if "\<not> m_wantSetEquation pGui"
    using that unfolding e by simp
  show "s_mcubesImagePipeline s' = s_mcubesImagePipeline s"
    if "m_wantSetEquation pGui" "\<not> fst (computeReplaceEquation c (m_equationInput pGui) s)"
    using that assms
    by (auto simp: respondToGuiEvents_def Let_def split_beta computeReplaceEquation_def
          setupMcubesImagePipeline_def split: if_splits option.splits)
  show "s_mcubesImagePipeline s' = s_mcubesImagePipeline s" if "\<not> m_wantSetEquation pGui"
    using that assms
    by (auto simp: respondToGuiEvents_def Let_def split_beta split: if_splits)
  show "concat (map eventPipelines evs) = []"
    unfolding e by auto
qed


lemma twoQueuesBatches_pipeline:
  assumes "twoQueuesBatches ps B C batches st = Inr (st', subs)"
  shows "s_mcubesImagePipeline (tql_statics st') = s_mcubesImagePipeline (tql_statics st)
     \<and> (\<forall>sub \<in> set subs. tq_pipeline sub = s_mcubesImagePipeline (tql_statics st))"
  using assms
proof (induction batches arbitrary: st subs)
  case Nil
  then show ?case by simp
next
  case (Cons batch rest)
  from Cons.prems show ?case
  proof (rule twoQueuesBatches_Cons)
    fix st1 sub subs'
    assume a: "twoQueuesBatch ps B C batch st = Inr (st1, sub)"
      and b: "twoQueuesBatches ps B C rest st1 = Inr (st', subs')" and c: "subs = sub # subs'"
    show ?thesis
      using Cons.IH [OF b] twoQueuesBatch_Inr(6) [OF a] twoQueuesBatch_submit(3) [OF a] c
      by simp
  qed
qed

lemma gctBatches_pipeline:
  assumes "gctBatches ps B C batches st = Inr (st', subs)"
  shows "s_mcubesImagePipeline (gl_statics st') = s_mcubesImagePipeline (gl_statics st)
     \<and> (\<forall>sub \<in> set subs. gct_pipeline sub = s_mcubesImagePipeline (gl_statics st))"
  using assms
proof (induction batches arbitrary: st subs)
  case Nil
  then show ?case by simp
next
  case (Cons batch rest)
  from Cons.prems show ?case
  proof (rule gctBatches_Cons)
    fix st1 sub subs'
    assume a: "gctBatch ps B C batch st = Inr (st1, sub)"
      and b: "gctBatches ps B C rest st1 = Inr (st', subs')" and c: "subs = sub # subs'"
    show ?thesis
      using Cons.IH [OF b] gctBatch_Inr(6) [OF a] gctBatch_submit(3) [OF a] c
      by simp
  qed
qed

lemma twoQueues_frame_pipeline:
  assumes "computeDrawCommandsTwoQueues pGui s = Inr (s', subs)"
  shows "s_mcubesImagePipeline s' = s_mcubesImagePipeline s"
    and "\<forall>sub \<in> set subs. tq_pipeline sub = s_mcubesImagePipeline s"
proof -
  from assms obtain st' where
    a: "twoQueuesBatches (getMcubesJobs pGui) (batchSizeOf (m_batchSize pGui))
       (batchCountOf (length (getMcubesJobs pGui)) (batchSizeOf (m_batchSize pGui)))
       (batchNumbers (batchCountOf (length (getMcubesJobs pGui)) (batchSizeOf (m_batchSize pGui))))
       \<lparr> tql_statics = s, tql_nextCmdBufIndex = 0, tql_computeWaitTimelineValue = 0 \<rparr>
     = Inr (st', subs)"
    and b: "s' = tql_statics st'"
    by (rule twoQueues_frame_Inr)
  show "s_mcubesImagePipeline s' = s_mcubesImagePipeline s"
    and "\<forall>sub \<in> set subs. tq_pipeline sub = s_mcubesImagePipeline s"
    using twoQueuesBatches_pipeline [OF a] b by simp_all
qed

lemma gct_frame_pipeline:
  assumes "computeDrawCommandsGctOnly pGui s = Inr (s', subs)"
  shows "s_mcubesImagePipeline s' = s_mcubesImagePipeline s"
    and "\<forall>sub \<in> set subs. gct_pipeline sub = s_mcubesImagePipeline s"
proof -
  from assms obtain st' where
    a: "gctBatches (getMcubesJobs pGui) (batchSizeOf (m_batchSize pGui))
       (batchCountOf (length (getMcubesJobs pGui)) (batchSizeOf (m_batchSize pGui)))
       (batchNumbers (batchCountOf (length (getMcubesJobs pGui)) (batchSizeOf (m_batchSize pGui))))
       \<lparr> gl_statics = s, gl_nextCmdBufIndex = 0 \<rparr>
     = Inr (st', subs)"
    and b: "s' = gl_statics st'"
    by (rule gct_frame_Inr)
  show "s_mcubesImagePipeline s' = s_mcubesImagePipeline s"
    and "\<forall>sub \<in> set subs. gct_pipeline sub = s_mcubesImagePipeline s"
    using gctBatches_pipeline [OF a] b by simp_all
qed

lemma mainLoopIteration_pipeline:
  assumes it: "mainLoopIteration c pGui s = Inr (pGui', s', evs)"
    and keep: "m_wantSetEquation pGui \<longrightarrow> \<not> fst (computeReplaceEquation c (m_equationInput pGui) s)"
  shows "s_mcubesImagePipeline s' = s_mcubesImagePipeline s"
    and "\<forall>p \<in> set (concat (map eventPipelines evs)). p = s_mcubesImagePipeline s"
proof -
  let ?s = "s\<lparr> g_frameNumber := g_frameNumber s + 1 \<rparr>"
  have flag: "fst (computeReplaceEquation c (m_equationInput pGui) ?s)
      = fst (computeReplaceEquation c (m_equationInput pGui) s)"
    by (rule computeReplaceEquation_flag)
  from it obtain pre s0 where r: "respondToGuiEvents c pGui ?s = (pre, pGui', s0)"
    and f: "(m_wantComputeQueue pGui
           \<and> (\<exists>subs. computeDrawCommandsTwoQueues pGui' s0 = Inr (s', subs)
                 \<and> evs = pre @ [TwoQueuesFrame subs]))
       \<or> (\<not> m_wantComputeQueue pGui
           \<and> (\<exists>subs. computeDrawCommandsGctOnly pGui' s0 = Inr (s', subs)
                 \<and> evs = pre @ [GctOnlyFrame subs]))"
    by (rule mainLoopIteration_Inr)
  have p0: "s_mcubesImagePipeline s0 = s_mcubesImagePipeline s"
    using respondToGuiEvents_replace(4,5) [OF r] keep flag by (cases "m_wantSetEquation pGui") simp_all
  have pre: "concat (map eventPipelines pre) = []"
    by (rule respondToGuiEvents_replace(6) [OF r])
  from f show "s_mcubesImagePipeline s' = s_mcubesImagePipeline s"
  proof (elim disjE conjE exE)
    fix subs
    assume a: "computeDrawCommandsTwoQueues pGui' s0 = Inr (s', subs)"
    show ?thesis using twoQueues_frame_pipeline(1) [OF a] p0 by simp
  next
    fix subs
    assume a: "computeDrawCommandsGctOnly pGui' s0 = Inr (s', subs)"
    show ?thesis using gct_frame_pipeline(1) [OF a] p0 by simp
  qed
  from f show "\<forall>p \<in> set (concat (map eventPipelines evs)). p = s_mcubesImagePipeline s"
  proof (elim disjE conjE exE)
    fix subs
    assume a: "computeDrawCommandsTwoQueues pGui' s0 = Inr (s', subs)"
      and e: "evs = pre @ [TwoQueuesFrame subs]"
    show ?thesis
      using twoQueues_frame_pipeline(2) [OF a] p0 pre unfolding e by auto
  next
    fix subs
    assume a: "computeDrawCommandsGctOnly pGui' s0 = Inr (s', subs)"
      and e: "evs = pre @ [GctOnlyFrame subs]"
    show ?thesis
      using gct_frame_pipeline(2) [OF a] p0 pre unfolding e by auto
  qed
qed

lemma mainLoopIteration_replace:
  assumes it: "mainLoopIteration c pGui s = Inr (pGui', s', evs)"
  shows "replaceAfterIdle evs"
    and "m_wantSetEquation pGui \<Longrightarrow>
           ReplaceEquation (m_equationInput pGui) (fst (computeReplaceEquation c (m_equationInput pGui) s))
             \<in> set evs
           \<and> m_compileFailure pGui' = (\<not> fst (computeReplaceEquation c (m_equationInput pGui) s))"
    and "\<not> m_wantSetEquation pGui \<Longrightarrow> ReplaceEquation eq ok \<notin> set evs"
proof -
  let ?s = "s\<lparr> g_frameNumber := g_frameNumber s + 1 \<rparr>"
  have flag: "fst (computeReplaceEquation c (m_equationInput pGui) ?s)
      = fst (computeReplaceEquation c (m_equationInput pGui) s)"
    by (rule computeReplaceEquation_flag)
  from it obtain pre s0 where r: "respondToGuiEvents c pGui ?s = (pre, pGui', s0)"
    and f: "(m_wantComputeQueue pGui
           \<and> (\<exists>subs. computeDrawCommandsTwoQueues pGui' s0 = Inr (s', subs)
                 \<and> evs = pre @ [TwoQueuesFrame subs]))
       \<or> (\<not> m_wantComputeQueue pGui
           \<and> (\<exists>subs. computeDrawCommandsGctOnly pGui' s0 = Inr (s', subs)
                 \<and> evs = pre @ [GctOnlyFrame subs]))"
    by (rule mainLoopIteration_Inr)
  from f obtain last where e: "evs = pre @ [last]"
    and l: "replaceAfterIdle [last]" "\<And>eq ok. last \<noteq> ReplaceEquation eq ok"
    using replaceAfterIdle_single(1,2) by (elim disjE conjE exE) auto
  show "replaceAfterIdle evs"
    unfolding e by (rule replaceAfterIdle_append [OF respondToGuiEvents_replace(1) [OF r] l(1)])
  show "ReplaceEquation (m_equationInput pGui) (fst (computeReplaceEquation c (m_equationInput pGui) s))
             \<in> set evs
           \<and> m_compileFailure pGui' = (\<not> fst (computeReplaceEquation c (m_equationInput pGui) s))"
    if "m_wantSetEquation pGui"
    using respondToGuiEvents_replace(2) [OF r that] flag unfolding e by simp
  show "ReplaceEquation eq ok \<notin> set evs" if "\<not> m_wantSetEquation pGui"
    using respondToGuiEvents_replace(3) [OF r that, of eq ok] l(2) [of eq ok] unfolding e by auto
qed

lemma mainLoop_replace:
  assumes "mainLoop c guis s = Inr (s', evs)"
  shows "replaceAfterIdle evs"
  using assms
proof (induction guis arbitrary: s evs)
  case Nil
  then show ?case by (simp add: replaceAfterIdle_single)
next
  case (Cons pGui rest)
  from Cons.prems show ?case
  proof (rule mainLoop_Cons)
    fix pGui' s1 evs1 evs2
    assume a: "mainLoopIteration c pGui s = Inr (pGui', s1, evs1)"
      and b: "mainLoop c rest s1 = Inr (s', evs2)" and e: "evs = evs1 @ evs2"
    show ?thesis
      unfolding e
      by (rule replaceAfterIdle_append [OF mainLoopIteration_replace(1) [OF a] Cons.IH [OF b]])
  qed
qed

section \<open>Chunks of neighbouring batches\<close>

lemma mod_12_below_24:
  fixes x :: nat
  assumes "x < 24"
  shows "x mod 12 = (if x < 12 then x else x - 12)"
proof (cases "x < 12")
  case True
  then show ?thesis by simp
next
  case False
  then have "x mod 12 = (x - 12) mod 12" by (simp add: le_mod_geq)
  also have "\<dots> = x - 12" using assms by simp
  finally show ?thesis using False by simp
qed

lemma ring_inj:
  fixes a b i :: nat
  assumes "a < 12" "b < 12" "(i + Suc a) mod 12 = (i + Suc b) mod 12"
  shows "a = b"
proof -
  define j where "j = i mod 12"
  have j: "j < 12" by (simp add: j_def)
  have "(j + Suc a) mod 12 = (j + Suc b) mod 12"
    unfolding j_def using assms(3) by (simp only: mod_add_left_eq)
  moreover have "(j + Suc a) mod 12 = (if j + Suc a < 12 then j + Suc a else j + Suc a - 12)"
    using j assms(1) by (intro mod_12_below_24) simp
  moreover have "(j + Suc b) mod 12 = (if j + Suc b < 12 then j + Suc b else j + Suc b - 12)"
    using j assms(2) by (intro mod_12_below_24) simp
  ultimately have "(if j + Suc a < 12 then j + Suc a else j + Suc a - 12)
      = (if j + Suc b < 12 then j + Suc b else j + Suc b - 12)"
    by simp
  then show ?thesis using j assms(1,2) by (simp split: if_splits)
qed

lemma distinct_ringSlots:
  assumes n: "n \<le> 12"
  shows "distinct (ringSlots i n)"
proof -
  have "inj_on (\<lambda>k. (i + Suc k) mod 12) {0..<n}"
  proof (rule inj_onI)
    fix a b
    assume "a \<in> {0..<n}" "b \<in> {0..<n}" and e: "(i + Suc a) mod 12 = (i + Suc b) mod 12"
    then have "a < 12" "b < 12"
      using n by simp_all
    then show "a = b" using e by (rule ring_inj)
  qed
  then show ?thesis by (simp add: ringSlots_def distinct_map)
qed

lemma ring_segments_disjoint:
  assumes cs: "xs @ ys @ zs @ ws = ringSlots i (length (xs @ ys @ zs @ ws))"
    and le: "length ys + length zs \<le> 12"
  shows "set ys \<inter> set zs = {}"
proof -
  have len: "length (xs @ ys @ zs @ ws) = length xs + ((length ys + length zs) + length ws)"
    by simp
  have "xs @ (ys @ zs) @ ws = ringSlots i (length xs + ((length ys + length zs) + length ws))"
    using cs [unfolded len] by (simp only: append_assoc)
  also have "\<dots> = ringSlots i (length xs)
      @ ringSlots ((i + length xs) mod 12) (length ys + length zs)
      @ ringSlots (((i + length xs) mod 12 + (length ys + length zs)) mod 12) (length ws)"
    by (simp only: ringSlots_append)
  finally have e: "xs @ ((ys @ zs) @ ws) = ringSlots i (length xs)
      @ (ringSlots ((i + length xs) mod 12) (length ys + length zs)
      @ ringSlots (((i + length xs) mod 12 + (length ys + length zs)) mod 12) (length ws))" .
  have "length xs = length (ringSlots i (length xs))"
    by (simp add: length_ringSlots)
  from append_eq_append_conv [THEN iffD1, OF disjI1, OF this e]
  have e2: "(ys @ zs) @ ws = ringSlots ((i + length xs) mod 12) (length ys + length zs)
      @ ringSlots (((i + length xs) mod 12 + (length ys + length zs)) mod 12) (length ws)"
    by simp
  have "length (ys @ zs) = length (ringSlots ((i + length xs) mod 12) (length ys + length zs))"
    by (simp add: length_ringSlots)
  from append_eq_append_conv [THEN iffD1, OF disjI1, OF this e2]
  have "ys @ zs = ringSlots ((i + length xs) mod 12) (length ys + length zs)"
    by simp
  then have "distinct (ys @ zs)"
    using distinct_ringSlots [OF le] by simp
  then show ?thesis by simp
qed

lemma gctBatches_chunk_count:
  assumes "gctBatches ps B C batches st = Inr (st', subs)"
  shows "\<forall>sub \<in> set subs. length (gct_chunkPointerArray sub) \<le> unat B"
  using assms
proof (induction batches arbitrary: st subs)
  case Nil
  then show ?case by simp
next
  case (Cons batch rest)
  from Cons.prems show ?case
  proof (rule gctBatches_Cons)
    fix st1 sub subs'
    assume a: "gctBatch ps B C batch st = Inr (st1, sub)"
      and b: "gctBatches ps B C rest st1 = Inr (st', subs')" and c: "subs = sub # subs'"
    have "length (gct_chunkPointerArray sub) \<le> unat B"
      unfolding gctBatch_submit(1) [OF a] length_selectChunks by (rule batchIterationsOf_le)
    then show ?thesis
      using Cons.IH [OF b] c by simp
  qed
qed

lemma gct_frame_chunk_count:
  assumes "computeDrawCommandsGctOnly pGui s = Inr (s', subs)"
  shows "\<forall>sub \<in> set subs. length (gct_chunkPointerArray sub) \<le> unat (batchSizeOf (m_batchSize pGui))"
proof -
  from assms obtain st' where
    a: "gctBatches (getMcubesJobs pGui) (batchSizeOf (m_batchSize pGui))
       (batchCountOf (length (getMcubesJobs pGui)) (batchSizeOf (m_batchSize pGui)))
       (batchNumbers (batchCountOf (length (getMcubesJobs pGui)) (batchSizeOf (m_batchSize pGui))))
       \<lparr> gl_statics = s, gl_nextCmdBufIndex = 0 \<rparr>
     = Inr (st', subs)"
    by (rule gct_frame_Inr)
  show ?thesis by (rule gctBatches_chunk_count [OF a])
qed

lemma gct_frame_neighbours_disjoint:
  assumes f: "computeDrawCommandsGctOnly pGui s = Inr (s', subs)"
    and i: "s_mcubesChunkIndex s < MCUBES_CHUNK_COUNT"
    and s: "subs = pre @ a # b # post"
  shows "set (gct_chunkPointerArray a) \<inter> set (gct_chunkPointerArray b) = {}"
proof -
  let ?xs = "concat (map gct_chunkPointerArray pre)"
  let ?ws = "concat (map gct_chunkPointerArray post)"
  have c: "concat (map gct_chunkPointerArray subs)
      = ?xs @ gct_chunkPointerArray a @ gct_chunkPointerArray b @ ?ws"
    unfolding s by simp
  have r: "?xs @ gct_chunkPointerArray a @ gct_chunkPointerArray b @ ?ws
      = ringSlots (unat (s_mcubesChunkIndex s))
          (length (?xs @ gct_chunkPointerArray a @ gct_chunkPointerArray b @ ?ws))"
    using gct_frame_ring [OF f i] unfolding c by blast
  have "length (gct_chunkPointerArray a) \<le> 6" "length (gct_chunkPointerArray b) \<le> 6"
    using gct_frame_chunk_count [OF f] batchSizeOf_unat [of "m_batchSize pGui"] unfolding s
    by auto
  then have le: "length (gct_chunkPointerArray a) + length (gct_chunkPointerArray b) \<le> 12"
    by simp
  show ?thesis by (rule ring_segments_disjoint [OF r le])
qed

section \<open>One chunk per job\<close>

lemma length_batchParamsOf: "length (batchParamsOf ps B batch) = batchIterationsOf ps B batch"
  by (simp add: batchParamsOf_def batchIterationsOf_def batchParams_def batchIterations_def)

lemma batchIterationsOf_pos:
  assumes B: "B \<noteq> 0" and b: "b < unat (batchCountOf (length ps) B)"
  shows "0 < batchIterationsOf ps B (word_of_nat b)"
proof -
  have "0 < unat B" using B by (simp add: unat_gt_0)
  then show ?thesis
    unfolding batchIterationsOf_def batchIterations_valid [OF B b]
    using batch_in_range(1) [OF B b] by simp
qed

lemma twoQueuesBatches_chunk_lengths:
  assumes "twoQueuesBatches ps B C batches st = Inr (st', subs)"
  shows "map length (map tq_chunkPointerArray subs) = map length (map tq_params subs)"
  using assms
proof (induction batches arbitrary: st subs)
  case Nil
  then show ?case by simp
next
  case (Cons batch rest)
  from Cons.prems show ?case
  proof (rule twoQueuesBatches_Cons)
    fix st1 sub subs'
    assume a: "twoQueuesBatch ps B C batch st = Inr (st1, sub)"
      and b: "twoQueuesBatches ps B C rest st1 = Inr (st', subs')" and c: "subs = sub # subs'"
    have "length (tq_chunkPointerArray sub) = length (tq_params sub)"
      unfolding twoQueuesBatch_submit(1,2) [OF a] length_selectChunks length_batchParamsOf ..
    then show ?thesis
      using Cons.IH [OF b] c by simp
  qed
qed

lemma gctBatches_chunk_lengths:
  assumes "gctBatches ps B C batches st = Inr (st', subs)"
  shows "map length (map gct_chunkPointerArray subs) = map length (map gct_params subs)"
  using assms
proof (induction batches arbitrary: st subs)
  case Nil
  then show ?case by simp
next
  case (Cons batch rest)
  from Cons.prems show ?case
  proof (rule gctBatches_Cons)
    fix st1 sub subs'
    assume a: "gctBatch ps B C batch st = Inr (st1, sub)"
      and b: "gctBatches ps B C rest st1 = Inr (st', subs')" and c: "subs = sub # subs'"
    have "length (gct_chunkPointerArray sub) = length (gct_params sub)"
      unfolding gctBatch_submit(1,2) [OF a] length_selectChunks length_batchParamsOf ..
    then show ?thesis
      using Cons.IH [OF b] c by simp
  qed
qed

lemma length_concat_slices:
  assumes "map length xss = map length (jobSlices ps B)" and "0 < B"
  shows "length (concat xss) = length ps"
proof -
  have "length (concat xss) = sum_list (map length xss)" by (simp add: length_concat)
  also have "\<dots> = sum_list (map length (jobSlices ps B))" by (simp only: assms(1))
  also have "\<dots> = length (concat (jobSlices ps B))" by (simp add: length_concat)
  also have "\<dots> = length ps" by (simp only: jobSlices_facts(3) [OF assms(2)])
  finally show ?thesis .
qed

lemma twoQueues_frame_chunk_lengths:
  assumes f: "computeDrawCommandsTwoQueues pGui s = Inr (s', subs)"
    and fits: "length (getMcubesJobs pGui) + unat (batchSizeOf (m_batchSize pGui)) \<le> 2 ^ 32"
  shows "map length (map tq_chunkPointerArray subs)
           = map length (jobSlices (getMcubesJobs pGui) (unat (batchSizeOf (m_batchSize pGui))))"
    and "length (concat (map tq_chunkPointerArray subs)) = length (getMcubesJobs pGui)"
proof -
  from f obtain st' where
    a: "twoQueuesBatches (getMcubesJobs pGui) (batchSizeOf (m_batchSize pGui))
       (batchCountOf (length (getMcubesJobs pGui)) (batchSizeOf (m_batchSize pGui)))
       (batchNumbers (batchCountOf (length (getMcubesJobs pGui)) (batchSizeOf (m_batchSize pGui))))
       \<lparr> tql_statics = s, tql_nextCmdBufIndex = 0, tql_computeWaitTimelineValue = 0 \<rparr>
     = Inr (st', subs)"
    by (rule twoQueues_frame_Inr)
  show 1: "map length (map tq_chunkPointerArray subs)
           = map length (jobSlices (getMcubesJobs pGui) (unat (batchSizeOf (m_batchSize pGui))))"
    unfolding twoQueuesBatches_chunk_lengths [OF a] twoQueues_frame_params [OF f fits] ..
  have "0 < unat (batchSizeOf (m_batchSize pGui))"
    using batchSizeOf_unat [of "m_batchSize pGui"] by simp
  then show "length (concat (map tq_chunkPointerArray subs)) = length (getMcubesJobs pGui)"
    by (rule length_concat_slices [OF 1])
qed

lemma gct_frame_chunk_lengths:
  assumes f: "computeDrawCommandsGctOnly pGui s = Inr (s', subs)"
    and fits: "length (getMcubesJobs pGui) + unat (batchSizeOf (m_batchSize pGui)) \<le> 2 ^ 32"
  shows "map length (map gct_chunkPointerArray subs)
           = map length (jobSlices (getMcubesJobs pGui) (unat (batchSizeOf (m_batchSize pGui))))"
    and "length (concat (map gct_chunkPointerArray subs)) = length (getMcubesJobs pGui)"
proof -
  from f obtain st' where
    a: "gctBatches (getMcubesJobs pGui) (batchSizeOf (m_batchSize pGui))
       (batchCountOf (length (getMcubesJobs pGui)) (batchSizeOf (m_batchSize pGui)))
       (batchNumbers (batchCountOf (length (getMcubesJobs pGui)) (batchSizeOf (m_batchSize pGui))))
       \<lparr> gl_statics = s, gl_nextCmdBufIndex = 0 \<rparr>
     = Inr (st', subs)"
    by (rule gct_frame_Inr)
  show 1: "map length (map gct_chunkPointerArray subs)
           = map length (jobSlices (getMcubesJobs pGui) (unat (batchSizeOf (m_batchSize pGui))))"
    unfolding gctBatches_chunk_lengths [OF a] gct_frame_params [OF f fits] ..
  have "0 < unat (batchSizeOf (m_batchSize pGui))"
    using batchSizeOf_unat [of "m_batchSize pGui"] by simp
  then show "length (concat (map gct_chunkPointerArray subs)) = length (getMcubesJobs pGui)"
    by (rule length_concat_slices [OF 1])
qed

lemma respondToGuiEvents_no_frame:
  assumes "respondToGuiEvents c pGui s = (evs, pGui', s')"
  shows "concat (map eventFrames evs) = []"
  using assms
  by (auto simp: respondToGuiEvents_def Let_def split_beta split: if_splits)

lemma mainLoopIteration_frames:
  assumes it: "mainLoopIteration c pGui s = Inr (pGui', s', evs)"
    and fits: "length (getMcubesJobs pGui) + unat (batchSizeOf (m_batchSize pGui)) \<le> 2 ^ 32"
  shows "map (\<lambda>f. (fst f, map length (snd f))) (concat (map eventFrames evs)) = [frameShape pGui]"
    and "concat (concat (map snd (concat (map eventFrames evs)))) = concat (map eventChunks evs)"
    and "length (concat (map eventChunks evs)) = length (getMcubesJobs pGui)"
proof -
  let ?s = "s\<lparr> g_frameNumber := g_frameNumber s + 1 \<rparr>"
  from it obtain pre s0 where r: "respondToGuiEvents c pGui ?s = (pre, pGui', s0)"
    and f: "(m_wantComputeQueue pGui
           \<and> (\<exists>subs. computeDrawCommandsTwoQueues pGui' s0 = Inr (s', subs)
                 \<and> evs = pre @ [TwoQueuesFrame subs]))
       \<or> (\<not> m_wantComputeQueue pGui
           \<and> (\<exists>subs. computeDrawCommandsGctOnly pGui' s0 = Inr (s', subs)
                 \<and> evs = pre @ [GctOnlyFrame subs]))"
    by (rule mainLoopIteration_Inr)
  note g = respondToGuiEvents_fields [OF r]
  have nf: "concat (map eventFrames pre) = []"
    by (rule respondToGuiEvents_no_frame [OF r])
  have nc: "concat (map eventChunks pre) = []"
    by (rule g(11))
  have fits': "length (getMcubesJobs pGui') + unat (batchSizeOf (m_batchSize pGui')) \<le> 2 ^ 32"
    using fits by (simp only: g(8,9))
  from f have "map (\<lambda>f. (fst f, map length (snd f))) (concat (map eventFrames evs)) = [frameShape pGui]
      \<and> concat (concat (map snd (concat (map eventFrames evs)))) = concat (map eventChunks evs)
      \<and> length (concat (map eventChunks evs)) = length (getMcubesJobs pGui)"
  proof (elim disjE conjE exE)
    fix subs
    assume q: "m_wantComputeQueue pGui"
      and a: "computeDrawCommandsTwoQueues pGui' s0 = Inr (s', subs)"
      and e: "evs = pre @ [TwoQueuesFrame subs]"
    note h = twoQueues_frame_chunk_lengths [OF a fits', unfolded g(8,9)]
    have "concat (map eventFrames evs)
        = concat (map eventFrames pre) @ [(True, map tq_chunkPointerArray subs)]"
      unfolding e by simp
    then have fr: "concat (map eventFrames evs) = [(True, map tq_chunkPointerArray subs)]"
      unfolding nf by simp
    have "concat (map eventChunks evs)
        = concat (map eventChunks pre) @ concat (map tq_chunkPointerArray subs)"
      unfolding e by simp
    then have ch: "concat (map eventChunks evs) = concat (map tq_chunkPointerArray subs)"
      unfolding nc by simp
    show ?thesis
      unfolding fr ch using q h by (simp add: frameShape_def)
  next
    fix subs
    assume q: "\<not> m_wantComputeQueue pGui"
      and a: "computeDrawCommandsGctOnly pGui' s0 = Inr (s', subs)"
      and e: "evs = pre @ [GctOnlyFrame subs]"
    note h = gct_frame_chunk_lengths [OF a fits', unfolded g(8,9)]
    have "concat (map eventFrames evs)
        = concat (map eventFrames pre) @ [(False, map gct_chunkPointerArray subs)]"
      unfolding e by simp
    then have fr: "concat (map eventFrames evs) = [(False, map gct_chunkPointerArray subs)]"
      unfolding nf by simp
    have "concat (map eventChunks evs)
        = concat (map eventChunks pre) @ concat (map gct_chunkPointerArray subs)"
      unfolding e by simp
    then have ch: "concat (map eventChunks evs) = concat (map gct_chunkPointerArray subs)"
      unfolding nc by simp
    show ?thesis
      unfolding fr ch using q h by (simp add: frameShape_def)
  qed
  then show "map (\<lambda>f. (fst f, map length (snd f))) (concat (map eventFrames evs)) = [frameShape pGui]"
    and "concat (concat (map snd (concat (map eventFrames evs)))) = concat (map eventChunks evs)"
    and "length (concat (map eventChunks evs)) = length (getMcubesJobs pGui)"
    by blast+
qed

lemma mainLoop_frames:
  assumes "mainLoop c guis s = Inr (s', evs)"
    and "\<forall>g \<in> set guis. length (getMcubesJobs g) + unat (batchSizeOf (m_batchSize g)) \<le> 2 ^ 32"
  shows "map (\<lambda>f. (fst f, map length (snd f))) (concat (map eventFrames evs)) = map frameShape guis
     \<and> concat (concat (map snd (concat (map eventFrames evs)))) = concat (map eventChunks evs)
     \<and> length (concat (map eventChunks evs)) = sum_list (map (\<lambda>g. length (getMcubesJobs g)) guis)"
  using assms
proof (induction guis arbitrary: s evs)
  case Nil
  then show ?case by simp
next
  case (Cons pGui rest)
  have fits1: "length (getMcubesJobs pGui) + unat (batchSizeOf (m_batchSize pGui)) \<le> 2 ^ 32"
    and fits2: "\<forall>g \<in> set rest. length (getMcubesJobs g) + unat (batchSizeOf (m_batchSize g)) \<le> 2 ^ 32"
    using Cons.prems(2) by simp_all
  from Cons.prems(1) show ?case
  proof (rule mainLoop_Cons)
    fix pGui' s1 evs1 evs2
    assume a: "mainLoopIteration c pGui s = Inr (pGui', s1, evs1)"
      and b: "mainLoop c rest s1 = Inr (s', evs2)" and e: "evs = evs1 @ evs2"
    note h1 = mainLoopIteration_frames [OF a fits1]
    note h2 = Cons.IH [OF b fits2]
    have h2a: "map (\<lambda>f. (fst f, map length (snd f))) (concat (map eventFrames evs2)) = map frameShape rest"
      and h2b: "concat (concat (map snd (concat (map eventFrames evs2)))) = concat (map eventChunks evs2)"
      and h2c: "length (concat (map eventChunks evs2)) = sum_list (map (\<lambda>g. length (getMcubesJobs g)) rest)"
      using h2 by blast+
    show ?thesis
      unfolding e by (simp add: h1 h2a h2b h2c)
  qed
qed

lemma example_run_frames:
  "(case mainLoop (\<lambda>eq. None)
           [guiWith True 6 [0..<64::nat], guiWith False 6 [0..<64], guiWith True 2 [0..<64]]
           (initialStatics (ComputePipeline 0) True) of
      Inl e \<Rightarrow> None
    | Inr (s, evs) \<Rightarrow> Some (concat (map eventFrames evs)))
   = Some [(True,
       [[1, 2, 3, 4, 5, 6], [7, 8, 9, 10, 11, 0], [1, 2, 3, 4, 5, 6],
        [7, 8, 9, 10, 11, 0], [1, 2, 3, 4, 5, 6], [7, 8, 9, 10, 11, 0],
        [1, 2, 3, 4, 5, 6], [7, 8, 9, 10, 11, 0], [1, 2, 3, 4, 5, 6],
        [7, 8, 9, 10, 11, 0], [1, 2, 3, 4]]),
      (False,
       [[5, 6, 7, 8, 9, 10], [11, 0, 1, 2, 3, 4], [5, 6, 7, 8, 9, 10],
        [11, 0, 1, 2, 3, 4], [5, 6, 7, 8, 9, 10], [11, 0, 1, 2, 3, 4],
        [5, 6, 7, 8, 9, 10], [11, 0, 1, 2, 3, 4], [5, 6, 7, 8, 9, 10],
        [11, 0, 1, 2, 3, 4], [5, 6, 7, 8]]),
      (True,
       [[9, 10], [11, 0], [1, 2], [3, 4], [5, 6], [7, 8], [9, 10], [11, 0],
        [1, 2], [3, 4], [5, 6], [7, 8], [9, 10], [11, 0], [1, 2], [3, 4],
        [5, 6], [7, 8], [9, 10], [11, 0], [1, 2], [3, 4], [5, 6], [7, 8],
        [9, 10], [11, 0], [1, 2], [3, 4], [5, 6], [7, 8], [9, 10], [11, 0]])]"
  by code_simp

lemma example_run_fits:
  "\<forall>g \<in> set [guiWith True 6 [0..<64::nat], guiWith False 6 [0..<64], guiWith True 2 [0..<64]].
     length (getMcubesJobs g) + unat (batchSizeOf (m_batchSize g)) \<le> 2 ^ 32"
  by (simp add: guiWith_def batchSizeOf_def clamp_u32_def MCUBES_MAX_CHUNKS_PER_BATCH_def)

lemma example_run_jobs:
  "sum_list (map (\<lambda>g. length (getMcubesJobs g))
     [guiWith True 6 [0..<64::nat], guiWith False 6 [0..<64], guiWith True 2 [0..<64]]) = 192"
  by (simp add: guiWith_def)

section \<open>What a dual-queue batch does to the chunks\<close>

lemma twoQueuesBatch_effect:
  assumes B: "B \<noteq> 0" and B6: "B \<le> MCUBES_MAX_CHUNKS_PER_BATCH"
    and b: "b < unat (batchCountOf (length ps) B)"
    and ok: "arraysOk (tql_statics st)" and ahead: "clockAhead (tql_statics st)"
    and cw: "tql_computeWaitTimelineValue st < s_upcomingTimelineValue (tql_statics st)"
  shows "\<exists>st' sub. twoQueuesBatch ps B C (word_of_nat b) st = Inr (st', sub)
     \<and> tq_params sub = batchParamsOf ps B (word_of_nat b) \<and> tq_params sub \<noteq> []
     \<and> tq_chunkPointerArray sub
          = ringSlots (unat (s_mcubesChunkIndex (tql_statics st))) (length (tq_params sub))
     \<and> tq_graphicsSignalTimelineValue sub = s_upcomingTimelineValue (tql_statics st)
     \<and> length (g_mcubesChunkArray (tql_statics st')) = 12
     \<and> (\<forall>i < 12. timelineValue (g_mcubesChunkArray (tql_statics st') ! i)
            = (if i \<in> set (tq_chunkPointerArray sub) then tq_graphicsSignalTimelineValue sub
               else timelineValue (g_mcubesChunkArray (tql_statics st) ! i)))"
proof -
  let ?s = "tql_statics st"
  let ?u = "s_upcomingTimelineValue ?s"
  let ?arr = "g_mcubesChunkArray ?s"
  let ?n = "batchIterationsOf ps B (word_of_nat b)"
  let ?ptrs = "snd (selectChunks ?n (s_mcubesChunkIndex ?s))"
  have len: "length ?arr = 12"
    using ok by (simp add: arraysOk_def MCUBES_CHUNK_COUNT_def)
  have idx: "s_mcubesChunkIndex ?s < MCUBES_CHUNK_COUNT"
    using ok by (simp add: arraysOk_def)
  have old: "timelineValue (?arr ! i) < ?u" if "i < 12" for i
    using ahead that len by (simp add: clockAhead_def)
  have "\<forall>i \<in> set ?ptrs. timelineValue (?arr ! i) < ?u"
    using selectChunks_in_range old by blast
  then have w: "accumulateWait ?arr ?ptrs (tql_computeWaitTimelineValue st) < ?u"
    using cw by (simp add: accumulateWait_less)
  obtain st' sub where r: "twoQueuesBatch ps B C (word_of_nat b) st = Inr (st', sub)"
    using twoQueuesBatch_succeeds [OF B B6 b w] by fastforce
  note f = twoQueuesBatch_Inr [OF r] and g = twoQueuesBatch_submit [OF r]
  have p: "tq_params sub = batchParamsOf ps B (word_of_nat b)" by (rule g(2))
  have n: "length (tq_params sub) = ?n"
    unfolding p by (rule length_batchParamsOf)
  have "0 < ?n" by (rule batchIterationsOf_pos [OF B b])
  then have ne: "tq_params sub \<noteq> []" using n by auto
  have c: "tq_chunkPointerArray sub = ringSlots (unat (s_mcubesChunkIndex ?s)) (length (tq_params sub))"
    unfolding g(1) n using selectChunks_ring [OF idx, of ?n] by blast
  have sig: "tq_graphicsSignalTimelineValue sub = ?u" by (rule g(7))
  have len': "length (g_mcubesChunkArray (tql_statics st')) = 12"
    using f(2) len by (simp add: length_recordTimeline)
  have v: "\<forall>i < 12. timelineValue (g_mcubesChunkArray (tql_statics st') ! i)
            = (if i \<in> set (tq_chunkPointerArray sub) then tq_graphicsSignalTimelineValue sub
               else timelineValue (?arr ! i))"
    unfolding f(2) sig using len by (simp add: recordTimeline_nth)
  show ?thesis
    using r p ne c sig len' v by blast
qed

lemma example_frame_64_timeline:
  "(case computeDrawCommandsTwoQueues (guiWith True 6 [0..<64::nat]) (initialStatics (ComputePipeline 0) True) of
      Inl e \<Rightarrow> None
    | Inr (s, subs) \<Rightarrow> Some (map timelineValue (g_mcubesChunkArray s), map tq_chunkPointerArray subs,
         map tq_graphicsSignalTimelineValue subs))
   = Some ([10, 11, 11, 11, 11, 9, 9, 10, 10, 10, 10, 10],
       [[1, 2, 3, 4, 5, 6], [7, 8, 9, 10, 11, 0], [1, 2, 3, 4, 5, 6], [7, 8, 9, 10, 11, 0],
        [1, 2, 3, 4, 5, 6], [7, 8, 9, 10, 11, 0], [1, 2, 3, 4, 5, 6], [7, 8, 9, 10, 11, 0],
        [1, 2, 3, 4, 5, 6], [7, 8, 9, 10, 11, 0], [1, 2, 3, 4]],
       [1, 2, 3, 4, 5, 6, 7, 8, 9, 10, 11])"
  by code_simp

lemma example_batch_0:
  "(case twoQueuesBatch [0..<64::nat] 6 11 0
           \<lparr> tql_statics = initialStatics (ComputePipeline 0) True, tql_nextCmdBufIndex = 0,
             tql_computeWaitTimelineValue = 0 \<rparr> of
      Inl e \<Rightarrow> None
    | Inr (st, sub) \<Rightarrow> Some (tq_chunkPointerArray sub, tq_params sub, tq_graphicsSignalTimelineValue sub,
         map timelineValue (g_mcubesChunkArray (tql_statics st))))
   = Some ([1, 2, 3, 4, 5, 6], [0, 1, 2, 3, 4, 5], 1, [0, 1, 1, 1, 1, 1, 1, 0, 0, 0, 0, 0])"
  by code_simp

section \<open>The claims\<close>

text \<open>
  Claim C9. Whatever integer the GUI holds in \<^verbatim>\<open>m_batchSize\<close> (zero and negative values
  included), the batch size both schedulers work with lies in
  \<open>[1, MCUBES_MAX_CHUNKS_PER_BATCH]\<close>. Hence no batch runs the selection loop more than
  \<^verbatim>\<open>MCUBES_MAX_CHUNKS_PER_BATCH\<close> times, and neither scheduler ever divides by zero or
  writes past the end of \<^verbatim>\<open>chunkPointerArray\<close>, in any state and for any job list.
\<close>

theorem batch_size_clamped_no_undefined_behaviour:
  "1 \<le> batchSizeOf m \<and> batchSizeOf m \<le> MCUBES_MAX_CHUNKS_PER_BATCH
   \<and> batchIterationsOf ps (batchSizeOf m) batch \<le> unat MCUBES_MAX_CHUNKS_PER_BATCH
   \<and> computeDrawCommandsTwoQueues pGui s \<noteq> Inl DivisionByZero
   \<and> computeDrawCommandsTwoQueues pGui s \<noteq> Inl ChunkPointerArrayOverflow
   \<and> computeDrawCommandsGctOnly pGui s \<noteq> Inl DivisionByZero
   \<and> computeDrawCommandsGctOnly pGui s \<noteq> Inl ChunkPointerArrayOverflow"
proof -
  have a: "1 \<le> batchSizeOf m \<and> batchSizeOf m \<le> MCUBES_MAX_CHUNKS_PER_BATCH"
    by (rule batchSizeOf_bounds)
  have "batchIterationsOf ps (batchSizeOf m) batch \<le> unat (batchSizeOf m)"
    by (rule batchIterationsOf_le)
  also have "\<dots> \<le> unat MCUBES_MAX_CHUNKS_PER_BATCH"
    using a by (simp add: word_le_nat_alt)
  finally have b: "batchIterationsOf ps (batchSizeOf m) batch \<le> unat MCUBES_MAX_CHUNKS_PER_BATCH" .
  have c: "computeDrawCommandsTwoQueues pGui s \<noteq> Inl e" if "e \<noteq> CircularDependencyAssert" for e
    using twoQueues_frame_Inl [of pGui s e] that by blast
  have d: "computeDrawCommandsGctOnly pGui s \<noteq> Inl e" for e
    using gct_frame_succeeds [of pGui s] by auto
  show ?thesis
    using a b c d by simp
qed

text \<open>
  Claim C10. A frame of the single-queue scheduler always completes, and it leaves the clock
  \<^verbatim>\<open>s_upcomingTimelineValue\<close>, every chunk of \<^verbatim>\<open>g_mcubesChunkArray\<close> (so every
  \<^verbatim>\<open>timelineValue\<close>) and both arrays of pool wait values as they were. Of the variables
  of the model it changes only the ring cursor \<^verbatim>\<open>s_mcubesChunkIndex\<close>, the graphics
  command-buffer lists and the device's count of allocated command buffers; a dual-queue
  frame that follows starts from the clock and slot state the last one left.
\<close>

theorem gct_only_frame_effect:
  "\<exists>s' submits. computeDrawCommandsGctOnly pGui s = Inr (s', submits)
     \<and> s_upcomingTimelineValue s' = s_upcomingTimelineValue s
     \<and> g_mcubesChunkArray s' = g_mcubesChunkArray s
     \<and> s_frameComputePoolWaitTimelineValues s' = s_frameComputePoolWaitTimelineValues s
     \<and> s_frameGraphicsPoolWaitTimelineValues s' = s_frameGraphicsPoolWaitTimelineValues s
     \<and> s' = s\<lparr> s_mcubesChunkIndex := s_mcubesChunkIndex s',
                s_frameGraphicsCmdBufs := s_frameGraphicsCmdBufs s',
                vkAllocatedCommandBuffers := vkAllocatedCommandBuffers s' \<rparr>"
proof -
  obtain s' submits where r: "computeDrawCommandsGctOnly pGui s = Inr (s', submits)"
    using gct_frame_succeeds by blast
  from r obtain st' where
    l: "gctBatches (getMcubesJobs pGui) (batchSizeOf (m_batchSize pGui))
       (batchCountOf (length (getMcubesJobs pGui)) (batchSizeOf (m_batchSize pGui)))
       (batchNumbers (batchCountOf (length (getMcubesJobs pGui)) (batchSizeOf (m_batchSize pGui))))
       \<lparr> gl_statics = s, gl_nextCmdBufIndex = 0 \<rparr>
     = Inr (st', submits)"
    and s': "s' = gl_statics st'"
    by (rule gct_frame_Inr)
  note f = gctBatches_frame [OF l]
  show ?thesis
    using r f s' by (cases s, cases s') simp
qed

text \<open>
  Claim C3. Let \<open>M\<close> be the length of the job list and \<open>B\<close> the effective batch size
  (always in \<open>[1, 6]\<close>), with \<open>M + B \<le> 2^32\<close> so that the 32-bit batch arithmetic does
  not wrap (the GUI hands out at most \<open>8 * 8 * 8\<close> jobs). Then both schedulers submit
  exactly \<open>\<lceil>M / B\<rceil>\<close> batches; batch \<open>b\<close> holds the jobs with indices in
  \<open>[b * B, min ((b + 1) * B) M)\<close>; the batches put end to end are the job list, so every
  job is processed once and in order; every batch but the last holds \<open>B\<close> jobs and none is
  empty. The dual-queue frame is taken in a state where the recorded timeline values lie
  before the clock and the clock does not wrap during the frame, which makes it complete;
  the single-queue frame completes in every state.
\<close>

theorem batches_partition_the_job_list:
  fixes pGui :: "'p Gui" and s :: Statics
  defines "ps \<equiv> getMcubesJobs pGui" and "B \<equiv> unat (batchSizeOf (m_batchSize pGui))"
  assumes fits: "length (getMcubesJobs pGui) + unat (batchSizeOf (m_batchSize pGui)) \<le> 2 ^ 32"
    and ok: "arraysOk s" and ahead: "clockAhead s"
    and nowrap: "unat (s_upcomingTimelineValue s)
        + unat (batchCountOf (length (getMcubesJobs pGui)) (batchSizeOf (m_batchSize pGui))) < 2 ^ 64"
  shows "1 \<le> B \<and> B \<le> 6
     \<and> (\<exists>s' subs. computeDrawCommandsTwoQueues pGui s = Inr (s', subs)
           \<and> length subs = (length ps + B - 1) div B
           \<and> (\<forall>b < length subs.
                 tq_params (subs ! b) = map (\<lambda>i. ps ! i) [b * B..<min ((b + 1) * B) (length ps)])
           \<and> concat (map tq_params subs) = ps
           \<and> (\<forall>b. Suc b < length subs \<longrightarrow> length (tq_params (subs ! b)) = B)
           \<and> (\<forall>b < length subs. tq_params (subs ! b) \<noteq> []))
     \<and> (\<exists>s' subs. computeDrawCommandsGctOnly pGui s = Inr (s', subs)
           \<and> length subs = (length ps + B - 1) div B
           \<and> (\<forall>b < length subs.
                 gct_params (subs ! b) = map (\<lambda>i. ps ! i) [b * B..<min ((b + 1) * B) (length ps)])
           \<and> concat (map gct_params subs) = ps
           \<and> (\<forall>b. Suc b < length subs \<longrightarrow> length (gct_params (subs ! b)) = B)
           \<and> (\<forall>b < length subs. gct_params (subs ! b) \<noteq> []))"
proof -
  have B: "1 \<le> B \<and> B \<le> 6"
    unfolding B_def by (rule batchSizeOf_unat)
  then have Bpos: "0 < B" by simp
  obtain s1 subs1 where r1: "computeDrawCommandsTwoQueues pGui s = Inr (s1, subs1)"
    using twoQueues_frame_invariant [OF ok ahead nowrap] by blast
  have p1: "map tq_params subs1 = jobSlices ps B"
    unfolding ps_def B_def by (rule twoQueues_frame_params [OF r1 fits])
  note f1 = slices_spelled_out [OF p1 Bpos]
  obtain s2 subs2 where r2: "computeDrawCommandsGctOnly pGui s = Inr (s2, subs2)"
    using gct_frame_succeeds by blast
  have p2: "map gct_params subs2 = jobSlices ps B"
    unfolding ps_def B_def by (rule gct_frame_params [OF r2 fits])
  note f2 = slices_spelled_out [OF p2 Bpos]
  have "\<exists>s' subs. computeDrawCommandsTwoQueues pGui s = Inr (s', subs)
           \<and> length subs = (length ps + B - 1) div B
           \<and> (\<forall>b < length subs.
                 tq_params (subs ! b) = map (\<lambda>i. ps ! i) [b * B..<min ((b + 1) * B) (length ps)])
           \<and> concat (map tq_params subs) = ps
           \<and> (\<forall>b. Suc b < length subs \<longrightarrow> length (tq_params (subs ! b)) = B)
           \<and> (\<forall>b < length subs. tq_params (subs ! b) \<noteq> [])"
    using r1 f1 by blast
  moreover have "\<exists>s' subs. computeDrawCommandsGctOnly pGui s = Inr (s', subs)
           \<and> length subs = (length ps + B - 1) div B
           \<and> (\<forall>b < length subs.
                 gct_params (subs ! b) = map (\<lambda>i. ps ! i) [b * B..<min ((b + 1) * B) (length ps)])
           \<and> concat (map gct_params subs) = ps
           \<and> (\<forall>b. Suc b < length subs \<longrightarrow> length (gct_params (subs ! b)) = B)
           \<and> (\<forall>b < length subs. gct_params (subs ! b) \<noteq> [])"
    using r2 f2 by blast
  ultimately show ?thesis using B by blast
qed

theorem batches_partition_the_job_list_witness:
  "length (getMcubesJobs (guiWith True 6 [0..<64::nat]))
     + unat (batchSizeOf (m_batchSize (guiWith True 6 [0..<64::nat]))) \<le> 2 ^ 32
   \<and> arraysOk (initialStatics (ComputePipeline 0) True)
   \<and> clockAhead (initialStatics (ComputePipeline 0) True)
   \<and> unat (s_upcomingTimelineValue (initialStatics (ComputePipeline 0) True))
        + unat (batchCountOf (length (getMcubesJobs (guiWith True 6 [0..<64::nat])))
                  (batchSizeOf (m_batchSize (guiWith True 6 [0..<64::nat])))) < 2 ^ 64
   \<and> (\<exists>s' subs. computeDrawCommandsTwoQueues (guiWith True 6 [0..<64::nat])
                    (initialStatics (ComputePipeline 0) True) = Inr (s', subs)
          \<and> length subs = 11 \<and> concat (map tq_params subs) = [0..<64])
   \<and> (\<exists>s' subs. computeDrawCommandsGctOnly (guiWith True 6 [0..<64::nat])
                    (initialStatics (ComputePipeline 0) True) = Inr (s', subs)
          \<and> length subs = 11 \<and> concat (map gct_params subs) = [0..<64])"
proof -
  let ?g = "guiWith True 6 [0..<64::nat]"
  let ?s = "initialStatics (ComputePipeline 0) True"
  have h1: "length (getMcubesJobs ?g) + unat (batchSizeOf (m_batchSize ?g)) \<le> 2 ^ 32"
    by (rule example_fits)
  have h2: "arraysOk ?s" by (rule initial_arraysOk)
  have h3: "clockAhead ?s" by (rule initial_clockAhead)
  have h4: "unat (s_upcomingTimelineValue ?s)
        + unat (batchCountOf (length (getMcubesJobs ?g)) (batchSizeOf (m_batchSize ?g))) < 2 ^ 64"
    by (simp add: example_batchCount) (simp add: initialStatics_def)
  have B: "unat (batchSizeOf (m_batchSize ?g)) = 6"
    by (simp add: guiWith_def batchSizeOf_def clamp_u32_def MCUBES_MAX_CHUNKS_PER_BATCH_def)
  have ps: "getMcubesJobs ?g = [0..<64]" by (simp add: guiWith_def)
  note t = batches_partition_the_job_list [OF h1 h2 h3 h4, unfolded B ps]
  have n: "(length [0..<64::nat] + 6 - 1) div 6 = (11::nat)" by simp
  show ?thesis
    using h1 h2 h3 h4 t unfolding n by blast
qed

text \<open>
  Claim C1. Take any run of the main loop from the initial state: any sequence of GUI
  snapshots, with any batch sizes, job lists, switches between the two schedulers and
  kernel replacements, as long as the dual-queue scheduler is asked for fewer than
  \<open>2^64 - 1\<close> batches in total, so that the 64-bit clock does not wrap. The run never stops
  at the assertion \<^verbatim>\<open>computeWaitTimelineValue < s_upcomingTimelineValue\<close> (nor at any other
  check), and every dual-queue batch is submitted with a compute wait value strictly below
  the value it signals.
\<close>

theorem circular_dependency_assert_never_fails:
  assumes "1 + twoQueuesBatchTotal guis < 2 ^ 64"
  shows "\<exists>s evs. mainLoop c guis (initialStatics p q) = Inr (s, evs)
     \<and> (\<forall>sub \<in> set (concat (map eventTwoQueuesSubmits evs)).
           tq_computeWaitTimelineValue sub < tq_computeSignalTimelineValue sub)"
proof -
  have nw: "unat (s_upcomingTimelineValue (initialStatics p q)) + twoQueuesBatchTotal guis < 2 ^ 64"
    using assms by (simp add: initial_clock)
  obtain s evs where r: "mainLoop c guis (initialStatics p q) = Inr (s, evs)"
    using mainLoop_invariant [OF initial_arraysOk initial_clockAhead nw] by blast
  show ?thesis
    using r mainLoop_events [OF r] by blast
qed

theorem circular_dependency_assert_never_fails_witness:
  "1 + twoQueuesBatchTotal [guiWith True 6 [0..<64::nat], guiWith False 6 [0..<64], guiWith True 2 [0..<64]]
     < 2 ^ 64
   \<and> (\<exists>s evs. mainLoop (\<lambda>eq. None)
         [guiWith True 6 [0..<64::nat], guiWith False 6 [0..<64], guiWith True 2 [0..<64]]
         (initialStatics (ComputePipeline 0) True) = Inr (s, evs)
       \<and> (\<forall>sub \<in> set (concat (map eventTwoQueuesSubmits evs)).
             tq_computeWaitTimelineValue sub < tq_computeSignalTimelineValue sub))"
proof -
  have h: "1 + twoQueuesBatchTotal
      [guiWith True 6 [0..<64::nat], guiWith False 6 [0..<64], guiWith True 2 [0..<64]] < 2 ^ 64"
    unfolding example_run_total by simp
  show ?thesis
    using h circular_dependency_assert_never_fails [OF h, of "\<lambda>eq. None" "ComputePipeline 0" True]
    by blast
qed

text \<open>
  Claim C5. The clock starts at 1. A dual-queue batch that is submitted signals the current
  clock value on both semaphores and leaves the clock one higher. Over any run from the
  initial state in which the clock does not wrap, the \<open>k\<close>-th dual-queue batch (from 0)
  signals \<open>k + 1\<close> on both semaphores, so the signal values increase strictly and no two
  batches share one, and the clock ends at the number of batches plus one. Scheduling 64
  jobs with batch size 6 from the initial state gives 11 batches and leaves the clock at 12.
\<close>

theorem clock_advances_by_one_per_batch:
  assumes "1 + twoQueuesBatchTotal guis < 2 ^ 64"
  shows "s_upcomingTimelineValue (initialStatics p q) = 1
     \<and> (\<forall>ps B C batch st st' sub.
           twoQueuesBatch ps B C batch st = Inr (st', sub :: 'p TwoQueuesSubmit) \<longrightarrow>
             tq_computeSignalTimelineValue sub = s_upcomingTimelineValue (tql_statics st)
             \<and> tq_graphicsSignalTimelineValue sub = s_upcomingTimelineValue (tql_statics st)
             \<and> s_upcomingTimelineValue (tql_statics st') = s_upcomingTimelineValue (tql_statics st) + 1)
     \<and> (\<exists>s evs. mainLoop c (guis :: 'p Gui list) (initialStatics p q) = Inr (s, evs)
           \<and> length (concat (map eventTwoQueuesSubmits evs)) = twoQueuesBatchTotal guis
           \<and> map tq_computeSignalTimelineValue (concat (map eventTwoQueuesSubmits evs))
                = map (\<lambda>k. word_of_nat (k + 1)) [0..<twoQueuesBatchTotal guis]
           \<and> map tq_graphicsSignalTimelineValue (concat (map eventTwoQueuesSubmits evs))
                = map (\<lambda>k. word_of_nat (k + 1)) [0..<twoQueuesBatchTotal guis]
           \<and> sorted_wrt (<) (map tq_computeSignalTimelineValue (concat (map eventTwoQueuesSubmits evs)))
           \<and> sorted_wrt (<) (map tq_graphicsSignalTimelineValue (concat (map eventTwoQueuesSubmits evs)))
           \<and> distinct (map tq_computeSignalTimelineValue (concat (map eventTwoQueuesSubmits evs)))
           \<and> distinct (map tq_graphicsSignalTimelineValue (concat (map eventTwoQueuesSubmits evs)))
           \<and> s_upcomingTimelineValue s = word_of_nat (twoQueuesBatchTotal guis + 1))
     \<and> (\<exists>s subs. computeDrawCommandsTwoQueues (guiWith True 6 [0..<64::nat])
                     (initialStatics (ComputePipeline 0) True) = Inr (s, subs)
           \<and> length subs = 11 \<and> s_upcomingTimelineValue s = 12)"
proof -
  have nw: "unat (s_upcomingTimelineValue (initialStatics p q)) + twoQueuesBatchTotal guis < 2 ^ 64"
    using assms by (simp add: initial_clock)
  obtain s evs where r: "mainLoop c guis (initialStatics p q) = Inr (s, evs)"
    using mainLoop_invariant [OF initial_arraysOk initial_clockAhead nw] by blast
  define subs where "subs = concat (map eventTwoQueuesSubmits evs)"
  define N where "N = twoQueuesBatchTotal guis"
  note g = mainLoop_events [OF r, folded subs_def, unfolded initial_clock]
  have len: "length subs = N" using g unfolding N_def by blast
  have g2: "s_upcomingTimelineValue s = 1 + word_of_nat (length subs)"
    and g3: "map tq_computeSignalTimelineValue subs = map (\<lambda>k. 1 + word_of_nat k) [0..<length subs]"
    and g4: "map tq_graphicsSignalTimelineValue subs = map tq_computeSignalTimelineValue subs"
    using g by blast+
  have shape: "(\<lambda>k. (1 :: u64) + word_of_nat k) = (\<lambda>k. word_of_nat (k + 1))"
    by (rule ext) simp
  have cs: "map tq_computeSignalTimelineValue subs = map (\<lambda>k. word_of_nat (k + 1)) [0..<N]"
    using g3 unfolding shape len .
  have gs: "map tq_graphicsSignalTimelineValue subs = map (\<lambda>k. word_of_nat (k + 1)) [0..<N]"
    using cs unfolding g4 .
  have "unat (1 :: u64) + N \<le> 2 ^ 64" using assms unfolding N_def by simp
  then have "sorted_wrt (<) (map (\<lambda>k. (1 :: u64) + word_of_nat k) [0..<N])"
    by (rule clock_values_increasing)
  then have inc: "sorted_wrt (<) (map tq_computeSignalTimelineValue subs)"
    using g3 unfolding len by simp
  then have inc': "sorted_wrt (<) (map tq_graphicsSignalTimelineValue subs)"
    unfolding g4 .
  have d: "distinct (map tq_computeSignalTimelineValue subs)"
    using inc by (simp add: strict_sorted_iff)
  have d': "distinct (map tq_graphicsSignalTimelineValue subs)"
    using d unfolding g4 .
  have fin: "s_upcomingTimelineValue s = word_of_nat (N + 1)"
    using g2 len by simp
  have run: "\<exists>s evs. mainLoop c guis (initialStatics p q) = Inr (s, evs)
           \<and> length (concat (map eventTwoQueuesSubmits evs)) = twoQueuesBatchTotal guis
           \<and> map tq_computeSignalTimelineValue (concat (map eventTwoQueuesSubmits evs))
                = map (\<lambda>k. word_of_nat (k + 1)) [0..<twoQueuesBatchTotal guis]
           \<and> map tq_graphicsSignalTimelineValue (concat (map eventTwoQueuesSubmits evs))
                = map (\<lambda>k. word_of_nat (k + 1)) [0..<twoQueuesBatchTotal guis]
           \<and> sorted_wrt (<) (map tq_computeSignalTimelineValue (concat (map eventTwoQueuesSubmits evs)))
           \<and> sorted_wrt (<) (map tq_graphicsSignalTimelineValue (concat (map eventTwoQueuesSubmits evs)))
           \<and> distinct (map tq_computeSignalTimelineValue (concat (map eventTwoQueuesSubmits evs)))
           \<and> distinct (map tq_graphicsSignalTimelineValue (concat (map eventTwoQueuesSubmits evs)))
           \<and> s_upcomingTimelineValue s = word_of_nat (twoQueuesBatchTotal guis + 1)"
    using r len cs gs inc inc' d d' fin unfolding subs_def N_def by blast
  have step: "\<forall>ps B C batch st st' sub.
           twoQueuesBatch ps B C batch st = Inr (st', sub :: 'p TwoQueuesSubmit) \<longrightarrow>
             tq_computeSignalTimelineValue sub = s_upcomingTimelineValue (tql_statics st)
             \<and> tq_graphicsSignalTimelineValue sub = s_upcomingTimelineValue (tql_statics st)
             \<and> s_upcomingTimelineValue (tql_statics st') = s_upcomingTimelineValue (tql_statics st) + 1"
  proof (intro allI impI)
    fix ps B C batch st st' and sub :: "'p TwoQueuesSubmit"
    assume a: "twoQueuesBatch ps B C batch st = Inr (st', sub)"
    show "tq_computeSignalTimelineValue sub = s_upcomingTimelineValue (tql_statics st)
             \<and> tq_graphicsSignalTimelineValue sub = s_upcomingTimelineValue (tql_statics st)
             \<and> s_upcomingTimelineValue (tql_statics st') = s_upcomingTimelineValue (tql_statics st) + 1"
      using twoQueuesBatch_submit(5,7) [OF a] twoQueuesBatch_Inr(1) [OF a] by simp
  qed
  have ex: "\<exists>s subs. computeDrawCommandsTwoQueues (guiWith True 6 [0..<64::nat])
                     (initialStatics (ComputePipeline 0) True) = Inr (s, subs)
           \<and> length subs = 11 \<and> s_upcomingTimelineValue s = 12"
  proof -
    obtain s subs where fr: "computeDrawCommandsTwoQueues (guiWith True 6 [0..<64::nat])
                     (initialStatics (ComputePipeline 0) True) = Inr (s, subs)"
      and v: "s_upcomingTimelineValue s = 12"
        "map tq_computeSignalTimelineValue subs = [1, 2, 3, 4, 5, 6, 7, 8, 9, 10, 11]"
      using example_frame_64 by (auto split: sum.splits)
    have "length (map tq_computeSignalTimelineValue subs) = 11" unfolding v(2) by simp
    then have "length subs = 11" by simp
    then show ?thesis using fr v(1) by blast
  qed
  show ?thesis
    using initial_clock [of p q] step run ex by blast
qed

theorem clock_advances_by_one_per_batch_witness:
  "1 + twoQueuesBatchTotal [guiWith True 6 [0..<64::nat], guiWith False 6 [0..<64], guiWith True 2 [0..<64]]
     < 2 ^ 64
   \<and> (\<exists>s evs. mainLoop (\<lambda>eq. None)
         [guiWith True 6 [0..<64::nat], guiWith False 6 [0..<64], guiWith True 2 [0..<64]]
         (initialStatics (ComputePipeline 0) True) = Inr (s, evs)
       \<and> map tq_graphicsSignalTimelineValue (concat (map eventTwoQueuesSubmits evs))
            = map (\<lambda>k. word_of_nat (k + 1)) [0..<43]
       \<and> s_upcomingTimelineValue s = 44)"
proof -
  have h: "1 + twoQueuesBatchTotal
      [guiWith True 6 [0..<64::nat], guiWith False 6 [0..<64], guiWith True 2 [0..<64]] < 2 ^ 64"
    unfolding example_run_total by simp
  note t = clock_advances_by_one_per_batch [OF h, of "ComputePipeline 0" True "\<lambda>eq. None",
      unfolded example_run_total]
  have "(word_of_nat (43 + 1) :: u64) = 44" by simp
  then show ?thesis
    using h t by metis
qed

text \<open>
  Claim C7. \<^verbatim>\<open>computeReplaceEquation\<close> returns a success flag, and when the flag is false it
  returns the state it was given: pipeline, clock, chunks and cursor are what they were. In a
  run of the main loop from a state that satisfies the clock invariant (with the clock not
  wrapping, so that the run completes) every replacement attempt comes directly after a wait
  for the idle device. In the frame in which the GUI asks for a new equation the attempt is
  made and the GUI is told whether it failed; when it failed, the pipeline after the frame is
  the one before it and every batch of that frame binds it.
\<close>

theorem failed_kernel_replacement_keeps_the_pipeline:
  assumes ok: "arraysOk s" and ahead: "clockAhead s"
    and nowrap: "unat (s_upcomingTimelineValue s) + twoQueuesBatchTotal (pGui # rest) < 2 ^ 64"
  shows "(\<forall>eq s0. \<not> fst (computeReplaceEquation c eq s0) \<longrightarrow> snd (computeReplaceEquation c eq s0) = s0)
     \<and> (\<exists>pGui' s1 evs1 s' evs2.
           mainLoopIteration c (pGui :: 'p Gui) s = Inr (pGui', s1, evs1)
         \<and> mainLoop c rest s1 = Inr (s', evs2)
         \<and> mainLoop c (pGui # rest) s = Inr (s', evs1 @ evs2)
         \<and> replaceAfterIdle (evs1 @ evs2)
         \<and> (m_wantSetEquation pGui \<longrightarrow>
               ReplaceEquation (m_equationInput pGui)
                   (fst (computeReplaceEquation c (m_equationInput pGui) s)) \<in> set evs1
               \<and> m_compileFailure pGui' = (\<not> fst (computeReplaceEquation c (m_equationInput pGui) s)))
         \<and> (\<not> m_wantSetEquation pGui \<longrightarrow> (\<forall>eq success. ReplaceEquation eq success \<notin> set evs1))
         \<and> (m_wantSetEquation pGui \<and> \<not> fst (computeReplaceEquation c (m_equationInput pGui) s) \<longrightarrow>
               s_mcubesImagePipeline s1 = s_mcubesImagePipeline s
               \<and> (\<forall>p \<in> set (concat (map eventPipelines evs1)). p = s_mcubesImagePipeline s)))"
proof -
  have fail: "\<forall>eq s0. \<not> fst (computeReplaceEquation c eq s0) \<longrightarrow> snd (computeReplaceEquation c eq s0) = s0"
    using computeReplaceEquation_failure [of c] by simp
  obtain s' evs where run: "mainLoop c (pGui # rest) s = Inr (s', evs)"
    using mainLoop_invariant [OF ok ahead nowrap] by blast
  from run obtain pGui' s1 evs1 evs2 where it: "mainLoopIteration c pGui s = Inr (pGui', s1, evs1)"
    and r: "mainLoop c rest s1 = Inr (s', evs2)" and e: "evs = evs1 @ evs2"
    by (rule mainLoop_Cons)
  have idle: "replaceAfterIdle (evs1 @ evs2)"
    using mainLoop_replace [OF run] e by simp
  have asked: "m_wantSetEquation pGui \<longrightarrow>
               ReplaceEquation (m_equationInput pGui)
                   (fst (computeReplaceEquation c (m_equationInput pGui) s)) \<in> set evs1
               \<and> m_compileFailure pGui' = (\<not> fst (computeReplaceEquation c (m_equationInput pGui) s))"
    using mainLoopIteration_replace(2) [OF it] by blast
  have notasked: "\<not> m_wantSetEquation pGui \<longrightarrow> (\<forall>eq success. ReplaceEquation eq success \<notin> set evs1)"
    using mainLoopIteration_replace(3) [OF it] by blast
  have kept: "m_wantSetEquation pGui \<and> \<not> fst (computeReplaceEquation c (m_equationInput pGui) s) \<longrightarrow>
               s_mcubesImagePipeline s1 = s_mcubesImagePipeline s
               \<and> (\<forall>p \<in> set (concat (map eventPipelines evs1)). p = s_mcubesImagePipeline s)"
  proof
    assume a: "m_wantSetEquation pGui \<and> \<not> fst (computeReplaceEquation c (m_equationInput pGui) s)"
    then have k: "m_wantSetEquation pGui \<longrightarrow> \<not> fst (computeReplaceEquation c (m_equationInput pGui) s)"
      by simp
    show "s_mcubesImagePipeline s1 = s_mcubesImagePipeline s
               \<and> (\<forall>p \<in> set (concat (map eventPipelines evs1)). p = s_mcubesImagePipeline s)"
      using mainLoopIteration_pipeline [OF it k] by blast
  qed
  have "\<exists>pGui' s1 evs1 s' evs2.
           mainLoopIteration c pGui s = Inr (pGui', s1, evs1)
         \<and> mainLoop c rest s1 = Inr (s', evs2)
         \<and> mainLoop c (pGui # rest) s = Inr (s', evs1 @ evs2)
         \<and> replaceAfterIdle (evs1 @ evs2)
         \<and> (m_wantSetEquation pGui \<longrightarrow>
               ReplaceEquation (m_equationInput pGui)
                   (fst (computeReplaceEquation c (m_equationInput pGui) s)) \<in> set evs1
               \<and> m_compileFailure pGui' = (\<not> fst (computeReplaceEquation c (m_equationInput pGui) s)))
         \<and> (\<not> m_wantSetEquation pGui \<longrightarrow> (\<forall>eq success. ReplaceEquation eq success \<notin> set evs1))
         \<and> (m_wantSetEquation pGui \<and> \<not> fst (computeReplaceEquation c (m_equationInput pGui) s) \<longrightarrow>
               s_mcubesImagePipeline s1 = s_mcubesImagePipeline s
               \<and> (\<forall>p \<in> set (concat (map eventPipelines evs1)). p = s_mcubesImagePipeline s))"
    using it r run [unfolded e] idle asked notasked kept by blast
  with fail show ?thesis ..
qed

theorem failed_kernel_replacement_keeps_the_pipeline_witness:
  "arraysOk (initialStatics (ComputePipeline 0) True)
   \<and> clockAhead (initialStatics (ComputePipeline 0) True)
   \<and> unat (s_upcomingTimelineValue (initialStatics (ComputePipeline 0) True))
        + twoQueuesBatchTotal
            [(guiWith True 6 [0..<64::nat])\<lparr> m_wantSetEquation := True, m_equationInput := ''x +'' \<rparr>]
        < 2 ^ 64
   \<and> (\<exists>pGui' s1 evs1.
         mainLoopIteration (\<lambda>src. None)
           ((guiWith True 6 [0..<64::nat])\<lparr> m_wantSetEquation := True, m_equationInput := ''x +'' \<rparr>)
           (initialStatics (ComputePipeline 0) True) = Inr (pGui', s1, evs1)
         \<and> ReplaceEquation ''x +'' False \<in> set evs1
         \<and> m_compileFailure pGui'
         \<and> s_mcubesImagePipeline s1 = ComputePipeline 0
         \<and> (\<forall>p \<in> set (concat (map eventPipelines evs1)). p = ComputePipeline 0))"
proof -
  let ?g = "(guiWith True 6 [0..<64::nat])\<lparr> m_wantSetEquation := True, m_equationInput := ''x +'' \<rparr>"
  let ?s = "initialStatics (ComputePipeline 0) True"
  let ?c = "\<lambda>src :: string. None :: VkShaderModule option"
  have h1: "arraysOk ?s" by (rule initial_arraysOk)
  have h2: "clockAhead ?s" by (rule initial_clockAhead)
  have h3: "unat (s_upcomingTimelineValue ?s) + twoQueuesBatchTotal [?g] < 2 ^ 64"
    by (simp add: guiWith_def batchSizeOf_def clamp_u32_def MCUBES_MAX_CHUNKS_PER_BATCH_def
        batchCountOf_def initialStatics_def)
  have f: "fst (computeReplaceEquation ?c ''x +'' ?s) = False"
    by (simp add: computeReplaceEquation_def setupMcubesImagePipeline_def)
  have g: "m_wantSetEquation ?g" "m_equationInput ?g = ''x +''"
    by (simp_all add: guiWith_def)
  have p: "s_mcubesImagePipeline ?s = ComputePipeline 0"
    by (simp add: initialStatics_def)
  show ?thesis
    using h1 h2 h3 failed_kernel_replacement_keeps_the_pipeline [OF h1 h2 h3, of ?c]
    unfolding g(2) f p using g(1) by blast
qed

text \<open>
  Claim C6. For every configured value the batch size the single-queue scheduler uses is
  the value clamped to 1 to 6, so twice the batch size is at most the chunk count, and the
  assertion on it, which looks at the clamped value, holds in every batch: a single-queue
  frame always completes. No batch uses more chunks than the batch size, and two batches of
  a frame that follow one another share no chunk (given a cursor inside the chunk array).
  A configured batch size of 7 is not refused: the scheduler uses 6.
\<close>

theorem single_queue_batch_size_is_clamped_not_rejected:
  assumes i: "s_mcubesChunkIndex s < MCUBES_CHUNK_COUNT"
  shows "2 * unat (batchSizeOf m) \<le> unat MCUBES_CHUNK_COUNT
     \<and> batchSizeOf 7 = 6
     \<and> (\<exists>s' subs. computeDrawCommandsGctOnly (pGui :: 'p Gui) s = Inr (s', subs)
           \<and> (\<forall>sub \<in> set subs.
                 length (gct_chunkPointerArray sub) \<le> unat (batchSizeOf (m_batchSize pGui)))
           \<and> (\<forall>pre a b post. subs = pre @ a # b # post \<longrightarrow>
                 set (gct_chunkPointerArray a) \<inter> set (gct_chunkPointerArray b) = {}))"
proof -
  have b: "2 * unat (batchSizeOf m) \<le> unat MCUBES_CHUNK_COUNT"
    using batchSizeOf_unat [of m] by (simp add: MCUBES_CHUNK_COUNT_def)
  have seven: "batchSizeOf 7 = 6"
    by (simp add: batchSizeOf_def clamp_u32_def MCUBES_MAX_CHUNKS_PER_BATCH_def)
  obtain s' subs where f: "computeDrawCommandsGctOnly pGui s = Inr (s', subs)"
    using gct_frame_succeeds [of pGui s] by blast
  have n: "\<forall>sub \<in> set subs. length (gct_chunkPointerArray sub) \<le> unat (batchSizeOf (m_batchSize pGui))"
    by (rule gct_frame_chunk_count [OF f])
  have d: "\<forall>pre a b post. subs = pre @ a # b # post \<longrightarrow>
      set (gct_chunkPointerArray a) \<inter> set (gct_chunkPointerArray b) = {}"
  proof (intro allI impI)
    fix pre a b post
    assume s: "subs = pre @ a # b # post"
    show "set (gct_chunkPointerArray a) \<inter> set (gct_chunkPointerArray b) = {}"
      by (rule gct_frame_neighbours_disjoint [OF f i s])
  qed
  show ?thesis using b seven f n d by blast
qed

theorem single_queue_batch_size_is_clamped_not_rejected_witness:
  "s_mcubesChunkIndex (initialStatics (ComputePipeline 0) False) < MCUBES_CHUNK_COUNT
   \<and> 2 * unat (batchSizeOf 7) \<le> unat MCUBES_CHUNK_COUNT
   \<and> (\<exists>s' subs. computeDrawCommandsGctOnly (guiWith False 7 [0..<13::nat])
                    (initialStatics (ComputePipeline 0) False) = Inr (s', subs)
         \<and> (\<forall>sub \<in> set subs. length (gct_chunkPointerArray sub) \<le> 6))"
proof -
  have h: "s_mcubesChunkIndex (initialStatics (ComputePipeline 0) False) < MCUBES_CHUNK_COUNT"
    by (simp add: initialStatics_def MCUBES_CHUNK_COUNT_def)
  have g: "m_batchSize (guiWith False 7 [0..<13::nat]) = 7"
    by (simp add: guiWith_def)
  note t = single_queue_batch_size_is_clamped_not_rejected
      [OF h, of 7 "guiWith False 7 [0..<13::nat]", unfolded g]
  have six: "unat (6 :: u32) = 6" by simp
  from t have s: "batchSizeOf 7 = 6" by blast
  show ?thesis
    using h t unfolding s six by blast
qed

theorem batch_size_seven_is_used_as_six:
  "(case computeDrawCommandsGctOnly (guiWith False 7 [0..<13::nat])
           (initialStatics (ComputePipeline 0) False) of
      Inl e \<Rightarrow> None
    | Inr (s, subs) \<Rightarrow> Some (map gct_params subs, map gct_chunkPointerArray subs))
   = Some ([[0, 1, 2, 3, 4, 5], [6, 7, 8, 9, 10, 11], [12]],
           [[1, 2, 3, 4, 5, 6], [7, 8, 9, 10, 11, 0], [1]])"
  by code_simp

text \<open>
  Claim C2. The compute wait value of a batch is the running maximum over the chunks of all
  batches of the frame so far, not the maximum over the chunks of the batch alone. A run
  that shows the difference: a dual-queue frame with one job, a single-queue frame with 35
  jobs, then a dual-queue frame with two jobs and batch size 1. Before the third frame
  chunk 1 holds 1 and every other chunk holds 0. The third frame's first batch takes chunk
  1 and waits for 1; its second batch takes chunk 2, which holds 0, and waits for 1 as well.
\<close>

theorem wait_value_is_a_running_maximum_over_the_frame:
  "(case mainLoop (\<lambda>src. None) [guiWith True 6 [0::nat], guiWith False 6 [0..<35]]
           (initialStatics (ComputePipeline 0) True) of
      Inl e \<Rightarrow> None
    | Inr (s, evs) \<Rightarrow>
        (case mainLoopIteration (\<lambda>src. None) (guiWith True 1 [0, 1]) s of
           Inl e \<Rightarrow> None
         | Inr (pGui, s', evs') \<Rightarrow>
             Some (map timelineValue (g_mcubesChunkArray s),
                   map tq_chunkPointerArray (concat (map eventTwoQueuesSubmits evs')),
                   map tq_computeWaitTimelineValue (concat (map eventTwoQueuesSubmits evs')),
                   selectedChunksMaxima (g_mcubesChunkArray s)
                     (concat (map eventTwoQueuesSubmits evs')))))
   = Some ([0, 1, 0, 0, 0, 0, 0, 0, 0, 0, 0, 0], [[1], [2]], [1, 1], [1, 0])"
  by code_simp

text \<open>
  Claim C8. Take any run from the initial state in which the clock does not wrap (so that
  the run completes) and every job list fits the 32-bit batch arithmetic. Every GUI snapshot
  gives one frame, run by the scheduler the snapshot asks for, single-queue or dual-queue,
  and every batch of it is assigned one chunk per job. The chunks assigned, taken in order
  through all batches, frames and both schedulers, are \<open>1, 2, \<dots>, 11, 0, 1, \<dots>\<close>, as many
  as the run has jobs: the \<open>k\<close>-th assignment (from 0) is slot \<open>(k + 1) mod 12\<close>, each
  assignment is its predecessor plus one modulo 12, and the cursor ends at the number of
  jobs modulo 12. For 64 jobs in batches of 6 the first frame uses slots 1 to 6, then 7 to
  11 and 0, and so on, the eleventh batch taking slots 1 to 4.
\<close>

theorem round_robin_slot_assignment:
  assumes nowrap: "1 + twoQueuesBatchTotal guis < 2 ^ 64"
    and fits: "\<forall>g \<in> set guis. length (getMcubesJobs g) + unat (batchSizeOf (m_batchSize g)) \<le> 2 ^ 32"
  shows "(\<exists>s evs. mainLoop c guis (initialStatics p q) = Inr (s, evs)
       \<and> map (\<lambda>f. (fst f, map length (snd f))) (concat (map eventFrames evs)) = map frameShape guis
       \<and> concat (map eventChunks evs) = concat (concat (map snd (concat (map eventFrames evs))))
       \<and> length (concat (map eventChunks evs)) = sum_list (map (\<lambda>g. length (getMcubesJobs g)) guis)
       \<and> concat (map eventChunks evs)
            = map (\<lambda>k. (k + 1) mod 12) [0..<sum_list (map (\<lambda>g. length (getMcubesJobs g)) guis)]
       \<and> (\<forall>k. Suc k < length (concat (map eventChunks evs)) \<longrightarrow>
              concat (map eventChunks evs) ! Suc k = (concat (map eventChunks evs) ! k + 1) mod 12)
       \<and> unat (s_mcubesChunkIndex s) = sum_list (map (\<lambda>g. length (getMcubesJobs g)) guis) mod 12)
     \<and> (\<exists>s subs. computeDrawCommandsTwoQueues (guiWith True 6 [0..<64::nat])
                     (initialStatics (ComputePipeline 0) True) = Inr (s, subs)
          \<and> map tq_chunkPointerArray subs =
               [[1, 2, 3, 4, 5, 6], [7, 8, 9, 10, 11, 0], [1, 2, 3, 4, 5, 6], [7, 8, 9, 10, 11, 0],
                [1, 2, 3, 4, 5, 6], [7, 8, 9, 10, 11, 0], [1, 2, 3, 4, 5, 6], [7, 8, 9, 10, 11, 0],
                [1, 2, 3, 4, 5, 6], [7, 8, 9, 10, 11, 0], [1, 2, 3, 4]])"
proof -
  have nw: "unat (s_upcomingTimelineValue (initialStatics p q)) + twoQueuesBatchTotal guis < 2 ^ 64"
    using nowrap by (simp add: initial_clock)
  obtain s evs where r: "mainLoop c guis (initialStatics p q) = Inr (s, evs)"
    using mainLoop_invariant [OF initial_arraysOk initial_clockAhead nw] by blast
  define cs where "cs = concat (map eventChunks evs)"
  define n where "n = sum_list (map (\<lambda>g. length (getMcubesJobs g)) guis)"
  have i: "s_mcubesChunkIndex (initialStatics p q) < MCUBES_CHUNK_COUNT"
    by (simp add: initial_cursor MCUBES_CHUNK_COUNT_def)
  note f = mainLoop_frames [OF r fits, folded cs_def n_def]
  have f1: "map (\<lambda>f. (fst f, map length (snd f))) (concat (map eventFrames evs)) = map frameShape guis"
    and f2: "cs = concat (concat (map snd (concat (map eventFrames evs))))"
    and f3: "length cs = n"
    using f by simp_all
  note g = mainLoop_ring [OF r i, folded cs_def, unfolded initial_cursor]
  have g1: "cs = ringSlots 0 (length cs)" and g2: "unat (s_mcubesChunkIndex s) = length cs mod 12"
    using g by simp_all
  have 1: "cs = map (\<lambda>k. (k + 1) mod 12) [0..<n]"
  proof -
    have "ringSlots 0 (length cs) = map (\<lambda>k. (k + 1) mod 12) [0..<length cs]"
      by (simp add: ringSlots_def)
    then show ?thesis using g1 unfolding f3 by simp
  qed
  have 2: "\<forall>k. Suc k < length cs \<longrightarrow> cs ! Suc k = (cs ! k + 1) mod 12"
    using ringSlots_pairs [OF g1] by blast
  have 3: "unat (s_mcubesChunkIndex s) = n mod 12"
    using g2 unfolding f3 .
  have a: "\<exists>s evs. mainLoop c guis (initialStatics p q) = Inr (s, evs)
       \<and> map (\<lambda>f. (fst f, map length (snd f))) (concat (map eventFrames evs)) = map frameShape guis
       \<and> concat (map eventChunks evs) = concat (concat (map snd (concat (map eventFrames evs))))
       \<and> length (concat (map eventChunks evs)) = sum_list (map (\<lambda>g. length (getMcubesJobs g)) guis)
       \<and> concat (map eventChunks evs)
            = map (\<lambda>k. (k + 1) mod 12) [0..<sum_list (map (\<lambda>g. length (getMcubesJobs g)) guis)]
       \<and> (\<forall>k. Suc k < length (concat (map eventChunks evs)) \<longrightarrow>
              concat (map eventChunks evs) ! Suc k = (concat (map eventChunks evs) ! k + 1) mod 12)
       \<and> unat (s_mcubesChunkIndex s) = sum_list (map (\<lambda>g. length (getMcubesJobs g)) guis) mod 12"
    using r f1 f2 f3 1 2 3 unfolding cs_def n_def by blast
  have b: "\<exists>s subs. computeDrawCommandsTwoQueues (guiWith True 6 [0..<64::nat])
                     (initialStatics (ComputePipeline 0) True) = Inr (s, subs)
          \<and> map tq_chunkPointerArray subs =
               [[1, 2, 3, 4, 5, 6], [7, 8, 9, 10, 11, 0], [1, 2, 3, 4, 5, 6], [7, 8, 9, 10, 11, 0],
                [1, 2, 3, 4, 5, 6], [7, 8, 9, 10, 11, 0], [1, 2, 3, 4, 5, 6], [7, 8, 9, 10, 11, 0],
                [1, 2, 3, 4, 5, 6], [7, 8, 9, 10, 11, 0], [1, 2, 3, 4]]"
    using example_frame_64 by (auto split: sum.splits)
  show ?thesis using a b by blast
qed

theorem round_robin_slot_assignment_witness:
  "1 + twoQueuesBatchTotal [guiWith True 6 [0..<64::nat], guiWith False 6 [0..<64], guiWith True 2 [0..<64]]
     < 2 ^ 64
   \<and> list_all (\<lambda>g. length (getMcubesJobs g) + unat (batchSizeOf (m_batchSize g)) \<le> 2 ^ 32)
        [guiWith True 6 [0..<64::nat], guiWith False 6 [0..<64], guiWith True 2 [0..<64]]
   \<and> (\<exists>s evs. mainLoop (\<lambda>eq. None)
         [guiWith True 6 [0..<64::nat], guiWith False 6 [0..<64], guiWith True 2 [0..<64]]
         (initialStatics (ComputePipeline 0) True) = Inr (s, evs)
       \<and> length (concat (map eventChunks evs)) = 192
       \<and> concat (map eventChunks evs) = map (\<lambda>k. (k + 1) mod 12) [0..<192]
       \<and> unat (s_mcubesChunkIndex s) = 0
       \<and> concat (map eventChunks evs) = concat (concat (map snd (concat (map eventFrames evs))))
       \<and> concat (map eventFrames evs)
            = [(True,
                [[1, 2, 3, 4, 5, 6], [7, 8, 9, 10, 11, 0], [1, 2, 3, 4, 5, 6],
                 [7, 8, 9, 10, 11, 0], [1, 2, 3, 4, 5, 6], [7, 8, 9, 10, 11, 0],
                 [1, 2, 3, 4, 5, 6], [7, 8, 9, 10, 11, 0], [1, 2, 3, 4, 5, 6],
                 [7, 8, 9, 10, 11, 0], [1, 2, 3, 4]]),
               (False,
                [[5, 6, 7, 8, 9, 10], [11, 0, 1, 2, 3, 4], [5, 6, 7, 8, 9, 10],
                 [11, 0, 1, 2, 3, 4], [5, 6, 7, 8, 9, 10], [11, 0, 1, 2, 3, 4],
                 [5, 6, 7, 8, 9, 10], [11, 0, 1, 2, 3, 4], [5, 6, 7, 8, 9, 10],
                 [11, 0, 1, 2, 3, 4], [5, 6, 7, 8]]),
               (True,
                [[9, 10], [11, 0], [1, 2], [3, 4], [5, 6], [7, 8], [9, 10], [11, 0],
                 [1, 2], [3, 4], [5, 6], [7, 8], [9, 10], [11, 0], [1, 2], [3, 4],
                 [5, 6], [7, 8], [9, 10], [11, 0], [1, 2], [3, 4], [5, 6], [7, 8],
                 [9, 10], [11, 0], [1, 2], [3, 4], [5, 6], [7, 8], [9, 10], [11, 0]])])"
proof -
  let ?guis = "[guiWith True 6 [0..<64::nat], guiWith False 6 [0..<64], guiWith True 2 [0..<64]]"
  have h: "1 + twoQueuesBatchTotal ?guis < 2 ^ 64"
    unfolding example_run_total by simp
  have h2: "\<forall>g \<in> set ?guis. length (getMcubesJobs g) + unat (batchSizeOf (m_batchSize g)) \<le> 2 ^ 32"
    by (rule example_run_fits)
  have h2': "list_all (\<lambda>g. length (getMcubesJobs g) + unat (batchSizeOf (m_batchSize g)) \<le> 2 ^ 32) ?guis"
    using h2 by (simp only: list_all_iff)
  note t = round_robin_slot_assignment [OF h h2, of "\<lambda>eq. None" "ComputePipeline 0" True,
      unfolded example_run_jobs]
  then obtain s evs where r: "mainLoop (\<lambda>eq. None) ?guis (initialStatics (ComputePipeline 0) True) = Inr (s, evs)"
    and 1: "length (concat (map eventChunks evs)) = 192"
    and 2: "concat (map eventChunks evs) = map (\<lambda>k. (k + 1) mod 12) [0..<192]"
    and 3: "unat (s_mcubesChunkIndex s) = 192 mod 12"
    and 4: "concat (map eventChunks evs) = concat (concat (map snd (concat (map eventFrames evs))))"
    by blast
  have 5: "concat (map eventFrames evs)
            = [(True,
                [[1, 2, 3, 4, 5, 6], [7, 8, 9, 10, 11, 0], [1, 2, 3, 4, 5, 6],
                 [7, 8, 9, 10, 11, 0], [1, 2, 3, 4, 5, 6], [7, 8, 9, 10, 11, 0],
                 [1, 2, 3, 4, 5, 6], [7, 8, 9, 10, 11, 0], [1, 2, 3, 4, 5, 6],
                 [7, 8, 9, 10, 11, 0], [1, 2, 3, 4]]),
               (False,
                [[5, 6, 7, 8, 9, 10], [11, 0, 1, 2, 3, 4], [5, 6, 7, 8, 9, 10],
                 [11, 0, 1, 2, 3, 4], [5, 6, 7, 8, 9, 10], [11, 0, 1, 2, 3, 4],
                 [5, 6, 7, 8, 9, 10], [11, 0, 1, 2, 3, 4], [5, 6, 7, 8, 9, 10],
                 [11, 0, 1, 2, 3, 4], [5, 6, 7, 8]]),
               (True,
                [[9, 10], [11, 0], [1, 2], [3, 4], [5, 6], [7, 8], [9, 10], [11, 0],
                 [1, 2], [3, 4], [5, 6], [7, 8], [9, 10], [11, 0], [1, 2], [3, 4],
                 [5, 6], [7, 8], [9, 10], [11, 0], [1, 2], [3, 4], [5, 6], [7, 8],
                 [9, 10], [11, 0], [1, 2], [3, 4], [5, 6], [7, 8], [9, 10], [11, 0]])]"
    using example_run_frames unfolding r by simp
  have z: "unat (s_mcubesChunkIndex s) = 0" using 3 by simp
  show ?thesis
    using h h2' r 1 2 z 4 5 by blast
qed

text \<open>
  Claim C4. A dual-queue batch run in a state that satisfies the clock invariant is
  submitted. It uses one chunk per job, the next chunks of the ring, at least one; its
  graphics submission signals the clock value before the batch increments it; and after the
  batch each of the 12 chunks holds that signal value if the batch used it and what it held
  before otherwise. A dual-queue frame started in such a state, with the clock not wrapping
  during the frame and the job list fitting the 32-bit batch arithmetic, completes. Its
  batches use one chunk per job, in ring order from the cursor, and signal the clock values
  one after the other. Afterwards every chunk used in the frame holds the graphics signal
  value of the last batch of the frame that used it, and every chunk no batch used holds
  what it held before.
\<close>

theorem slots_record_the_graphics_signal_value:
  assumes ok: "arraysOk s" and ahead: "clockAhead s"
    and nowrap: "unat (s_upcomingTimelineValue s)
        + unat (batchCountOf (length (getMcubesJobs pGui)) (batchSizeOf (m_batchSize pGui))) < 2 ^ 64"
    and fits: "length (getMcubesJobs pGui) + unat (batchSizeOf (m_batchSize pGui)) \<le> 2 ^ 32"
  shows "(\<forall>ps B C b st.
            B \<noteq> 0 \<and> B \<le> MCUBES_MAX_CHUNKS_PER_BATCH \<and> b < unat (batchCountOf (length ps) B)
            \<and> arraysOk (tql_statics st) \<and> clockAhead (tql_statics st)
            \<and> tql_computeWaitTimelineValue st < s_upcomingTimelineValue (tql_statics st) \<longrightarrow>
              (\<exists>st' sub. twoQueuesBatch ps B C (word_of_nat b) st = Inr (st', sub :: 'p TwoQueuesSubmit)
                 \<and> tq_params sub = batchParamsOf ps B (word_of_nat b) \<and> tq_params sub \<noteq> []
                 \<and> tq_chunkPointerArray sub
                      = ringSlots (unat (s_mcubesChunkIndex (tql_statics st))) (length (tq_params sub))
                 \<and> tq_graphicsSignalTimelineValue sub = s_upcomingTimelineValue (tql_statics st)
                 \<and> length (g_mcubesChunkArray (tql_statics st')) = 12
                 \<and> (\<forall>i < 12. timelineValue (g_mcubesChunkArray (tql_statics st') ! i)
                        = (if i \<in> set (tq_chunkPointerArray sub) then tq_graphicsSignalTimelineValue sub
                           else timelineValue (g_mcubesChunkArray (tql_statics st) ! i)))))
     \<and> (\<exists>s' subs. computeDrawCommandsTwoQueues (pGui :: 'p Gui) s = Inr (s', subs)
           \<and> map length (map tq_chunkPointerArray subs)
                = map length (jobSlices (getMcubesJobs pGui) (unat (batchSizeOf (m_batchSize pGui))))
           \<and> concat (map tq_chunkPointerArray subs)
                = ringSlots (unat (s_mcubesChunkIndex s)) (length (getMcubesJobs pGui))
           \<and> map tq_graphicsSignalTimelineValue subs
                = map (\<lambda>k. s_upcomingTimelineValue s + word_of_nat k) [0..<length subs]
           \<and> length (g_mcubesChunkArray s') = 12
           \<and> (\<forall>i pre sub post.
                 subs = pre @ sub # post \<and> i \<in> set (tq_chunkPointerArray sub)
                 \<and> (\<forall>c \<in> set post. i \<notin> set (tq_chunkPointerArray c)) \<longrightarrow>
                   timelineValue (g_mcubesChunkArray s' ! i) = tq_graphicsSignalTimelineValue sub)
           \<and> (\<forall>i < 12. (\<forall>c \<in> set subs. i \<notin> set (tq_chunkPointerArray c)) \<longrightarrow>
                   timelineValue (g_mcubesChunkArray s' ! i) = timelineValue (g_mcubesChunkArray s ! i)))"
proof -
  have batch: "\<forall>ps B C b st.
            B \<noteq> 0 \<and> B \<le> MCUBES_MAX_CHUNKS_PER_BATCH \<and> b < unat (batchCountOf (length ps) B)
            \<and> arraysOk (tql_statics st) \<and> clockAhead (tql_statics st)
            \<and> tql_computeWaitTimelineValue st < s_upcomingTimelineValue (tql_statics st) \<longrightarrow>
              (\<exists>st' sub. twoQueuesBatch ps B C (word_of_nat b) st = Inr (st', sub :: 'p TwoQueuesSubmit)
                 \<and> tq_params sub = batchParamsOf ps B (word_of_nat b) \<and> tq_params sub \<noteq> []
                 \<and> tq_chunkPointerArray sub
                      = ringSlots (unat (s_mcubesChunkIndex (tql_statics st))) (length (tq_params sub))
                 \<and> tq_graphicsSignalTimelineValue sub = s_upcomingTimelineValue (tql_statics st)
                 \<and> length (g_mcubesChunkArray (tql_statics st')) = 12
                 \<and> (\<forall>i < 12. timelineValue (g_mcubesChunkArray (tql_statics st') ! i)
                        = (if i \<in> set (tq_chunkPointerArray sub) then tq_graphicsSignalTimelineValue sub
                           else timelineValue (g_mcubesChunkArray (tql_statics st) ! i))))"
  proof (intro allI impI, elim conjE)
    fix ps :: "'p list" and B C :: u32 and b :: nat and st :: TwoQueuesLoop
    assume h: "B \<noteq> 0" "B \<le> MCUBES_MAX_CHUNKS_PER_BATCH" "b < unat (batchCountOf (length ps) B)"
      "arraysOk (tql_statics st)" "clockAhead (tql_statics st)"
      "tql_computeWaitTimelineValue st < s_upcomingTimelineValue (tql_statics st)"
    show "\<exists>st' sub. twoQueuesBatch ps B C (word_of_nat b) st = Inr (st', sub :: 'p TwoQueuesSubmit)
                 \<and> tq_params sub = batchParamsOf ps B (word_of_nat b) \<and> tq_params sub \<noteq> []
                 \<and> tq_chunkPointerArray sub
                      = ringSlots (unat (s_mcubesChunkIndex (tql_statics st))) (length (tq_params sub))
                 \<and> tq_graphicsSignalTimelineValue sub = s_upcomingTimelineValue (tql_statics st)
                 \<and> length (g_mcubesChunkArray (tql_statics st')) = 12
                 \<and> (\<forall>i < 12. timelineValue (g_mcubesChunkArray (tql_statics st') ! i)
                        = (if i \<in> set (tq_chunkPointerArray sub) then tq_graphicsSignalTimelineValue sub
                           else timelineValue (g_mcubesChunkArray (tql_statics st) ! i)))"
      by (rule twoQueuesBatch_effect [OF h])
  qed
  obtain s' subs where fr: "computeDrawCommandsTwoQueues pGui s = Inr (s', subs)"
    using twoQueues_frame_invariant [OF ok ahead nowrap] by blast
  from fr obtain st' where
    l: "twoQueuesBatches (getMcubesJobs pGui) (batchSizeOf (m_batchSize pGui))
       (batchCountOf (length (getMcubesJobs pGui)) (batchSizeOf (m_batchSize pGui)))
       (batchNumbers (batchCountOf (length (getMcubesJobs pGui)) (batchSizeOf (m_batchSize pGui))))
       \<lparr> tql_statics = s, tql_nextCmdBufIndex = 0, tql_computeWaitTimelineValue = 0 \<rparr>
     = Inr (st', subs)"
    and s': "s' = tql_statics st'"
    by (rule twoQueues_frame_Inr)
  have len: "length (g_mcubesChunkArray s) = 12"
    using ok by (simp add: arraysOk_def MCUBES_CHUNK_COUNT_def)
  have idx: "s_mcubesChunkIndex s < MCUBES_CHUNK_COUNT"
    using ok by (simp add: arraysOk_def)
  have cnt: "map length (map tq_chunkPointerArray subs)
      = map length (jobSlices (getMcubesJobs pGui) (unat (batchSizeOf (m_batchSize pGui))))"
    by (rule twoQueues_frame_chunk_lengths(1) [OF fr fits])
  have ring: "concat (map tq_chunkPointerArray subs)
      = ringSlots (unat (s_mcubesChunkIndex s)) (length (getMcubesJobs pGui))"
    using twoQueues_frame_ring [OF fr idx]
    unfolding twoQueues_frame_chunk_lengths(2) [OF fr fits] by blast
  have sig: "map tq_graphicsSignalTimelineValue subs
      = map (\<lambda>k. s_upcomingTimelineValue s + word_of_nat k) [0..<length subs]"
    using twoQueues_frame_signals(2,4) [OF fr] by simp
  have len': "length (g_mcubesChunkArray s') = 12"
    using twoQueuesBatches_timeline [OF l, of 0] len s' by simp
  have fin: "timelineValue (g_mcubesChunkArray s' ! i)
               = lastSignal i subs (timelineValue (g_mcubesChunkArray s ! i))" if "i < 12" for i
    using twoQueuesBatches_timeline [OF l, of i] that len s' by simp
  have used12: "i < 12" if "subs = pre @ sub # post" "i \<in> set (tq_chunkPointerArray sub)" for i pre sub post
  proof -
    have "i \<in> set (concat (map tq_chunkPointerArray subs))"
      using that by auto
    then have "i \<in> set (ringSlots (unat (s_mcubesChunkIndex s)) (length (getMcubesJobs pGui)))"
      unfolding ring .
    then show ?thesis by (auto simp: ringSlots_def)
  qed
  have a: "\<forall>i pre sub post.
                 subs = pre @ sub # post \<and> i \<in> set (tq_chunkPointerArray sub)
                 \<and> (\<forall>c \<in> set post. i \<notin> set (tq_chunkPointerArray c)) \<longrightarrow>
                   timelineValue (g_mcubesChunkArray s' ! i) = tq_graphicsSignalTimelineValue sub"
  proof (intro allI impI, elim conjE)
    fix i pre sub post
    assume e: "subs = pre @ sub # post" and i: "i \<in> set (tq_chunkPointerArray sub)"
      and p: "\<forall>c \<in> set post. i \<notin> set (tq_chunkPointerArray c)"
    show "timelineValue (g_mcubesChunkArray s' ! i) = tq_graphicsSignalTimelineValue sub"
      unfolding fin [OF used12 [OF e i]] e by (rule lastSignal_last_user [OF i p])
  qed
  have b: "\<forall>i < 12. (\<forall>c \<in> set subs. i \<notin> set (tq_chunkPointerArray c)) \<longrightarrow>
                   timelineValue (g_mcubesChunkArray s' ! i) = timelineValue (g_mcubesChunkArray s ! i)"
    using fin lastSignal_unused by metis
  have frame: "\<exists>s' subs. computeDrawCommandsTwoQueues pGui s = Inr (s', subs)
           \<and> map length (map tq_chunkPointerArray subs)
                = map length (jobSlices (getMcubesJobs pGui) (unat (batchSizeOf (m_batchSize pGui))))
           \<and> concat (map tq_chunkPointerArray subs)
                = ringSlots (unat (s_mcubesChunkIndex s)) (length (getMcubesJobs pGui))
           \<and> map tq_graphicsSignalTimelineValue subs
                = map (\<lambda>k. s_upcomingTimelineValue s + word_of_nat k) [0..<length subs]
           \<and> length (g_mcubesChunkArray s') = 12
           \<and> (\<forall>i pre sub post.
                 subs = pre @ sub # post \<and> i \<in> set (tq_chunkPointerArray sub)
                 \<and> (\<forall>c \<in> set post. i \<notin> set (tq_chunkPointerArray c)) \<longrightarrow>
                   timelineValue (g_mcubesChunkArray s' ! i) = tq_graphicsSignalTimelineValue sub)
           \<and> (\<forall>i < 12. (\<forall>c \<in> set subs. i \<notin> set (tq_chunkPointerArray c)) \<longrightarrow>
                   timelineValue (g_mcubesChunkArray s' ! i) = timelineValue (g_mcubesChunkArray s ! i))"
    using fr cnt ring sig len' a b by blast
  from batch frame show ?thesis ..
qed

theorem slots_record_the_graphics_signal_value_witness:
  "arraysOk (initialStatics (ComputePipeline 0) True)
   \<and> clockAhead (initialStatics (ComputePipeline 0) True)
   \<and> unat (s_upcomingTimelineValue (initialStatics (ComputePipeline 0) True))
        + unat (batchCountOf (length (getMcubesJobs (guiWith True 6 [0..<64::nat])))
                  (batchSizeOf (m_batchSize (guiWith True 6 [0..<64::nat])))) < 2 ^ 64
   \<and> length (getMcubesJobs (guiWith True 6 [0..<64::nat]))
        + unat (batchSizeOf (m_batchSize (guiWith True 6 [0..<64::nat]))) \<le> 2 ^ 32
   \<and> (\<exists>st' sub. twoQueuesBatch [0..<64::nat] 6 11 0
           \<lparr> tql_statics = initialStatics (ComputePipeline 0) True, tql_nextCmdBufIndex = 0,
             tql_computeWaitTimelineValue = 0 \<rparr> = Inr (st', sub)
         \<and> tq_params sub = [0, 1, 2, 3, 4, 5]
         \<and> tq_chunkPointerArray sub = [1, 2, 3, 4, 5, 6]
         \<and> tq_chunkPointerArray sub = ringSlots 0 6
         \<and> tq_graphicsSignalTimelineValue sub = 1
         \<and> map timelineValue (g_mcubesChunkArray (tql_statics st'))
              = [0, 1, 1, 1, 1, 1, 1, 0, 0, 0, 0, 0])
   \<and> (\<exists>s' subs. computeDrawCommandsTwoQueues (guiWith True 6 [0..<64::nat])
                    (initialStatics (ComputePipeline 0) True) = Inr (s', subs)
         \<and> concat (map tq_chunkPointerArray subs) = ringSlots 0 64
         \<and> map tq_chunkPointerArray subs =
               [[1, 2, 3, 4, 5, 6], [7, 8, 9, 10, 11, 0], [1, 2, 3, 4, 5, 6], [7, 8, 9, 10, 11, 0],
                [1, 2, 3, 4, 5, 6], [7, 8, 9, 10, 11, 0], [1, 2, 3, 4, 5, 6], [7, 8, 9, 10, 11, 0],
                [1, 2, 3, 4, 5, 6], [7, 8, 9, 10, 11, 0], [1, 2, 3, 4]]
         \<and> map tq_graphicsSignalTimelineValue subs = [1, 2, 3, 4, 5, 6, 7, 8, 9, 10, 11]
         \<and> map timelineValue (g_mcubesChunkArray s')
              = [10, 11, 11, 11, 11, 9, 9, 10, 10, 10, 10, 10])"
proof -
  let ?g = "guiWith True 6 [0..<64::nat]"
  let ?s = "initialStatics (ComputePipeline 0) True"
  let ?st = "\<lparr> tql_statics = ?s, tql_nextCmdBufIndex = 0, tql_computeWaitTimelineValue = 0 \<rparr>"
  have h1: "arraysOk ?s" by (rule initial_arraysOk)
  have h2: "clockAhead ?s" by (rule initial_clockAhead)
  have h3: "unat (s_upcomingTimelineValue ?s)
        + unat (batchCountOf (length (getMcubesJobs ?g)) (batchSizeOf (m_batchSize ?g))) < 2 ^ 64"
    by (simp add: example_batchCount) (simp add: initialStatics_def)
  have h4: "length (getMcubesJobs ?g) + unat (batchSizeOf (m_batchSize ?g)) \<le> 2 ^ 32"
    by (simp add: guiWith_def batchSizeOf_def clamp_u32_def MCUBES_MAX_CHUNKS_PER_BATCH_def)
  note t = slots_record_the_graphics_signal_value [OF h1 h2 h3 h4]
  note tb = t [THEN conjunct1, rule_format,
      where ps = "[0..<64::nat]" and B = 6 and C = 11 and b = 0 and st = ?st]
  note tf = t [THEN conjunct2]
  have pre: "(6 :: u32) \<noteq> 0 \<and> (6 :: u32) \<le> MCUBES_MAX_CHUNKS_PER_BATCH
      \<and> 0 < unat (batchCountOf (length [0..<64::nat]) 6)
      \<and> arraysOk (tql_statics ?st) \<and> clockAhead (tql_statics ?st)
      \<and> tql_computeWaitTimelineValue ?st < s_upcomingTimelineValue (tql_statics ?st)"
    using h1 h2 by (simp add: MCUBES_MAX_CHUNKS_PER_BATCH_def batchCountOf_def initial_clock)
  from tb [OF pre] obtain st' sub where
    r: "twoQueuesBatch [0..<64::nat] 6 11 0 ?st = Inr (st', sub)"
    and c: "tq_chunkPointerArray sub
        = ringSlots (unat (s_mcubesChunkIndex (tql_statics ?st))) (length (tq_params sub))"
    by auto
  have e: "tq_chunkPointerArray sub = [1, 2, 3, 4, 5, 6]" "tq_params sub = [0, 1, 2, 3, 4, 5]"
    "tq_graphicsSignalTimelineValue sub = 1"
    "map timelineValue (g_mcubesChunkArray (tql_statics st')) = [0, 1, 1, 1, 1, 1, 1, 0, 0, 0, 0, 0]"
    using example_batch_0 unfolding r by simp_all
  have l6: "length (tq_params sub) = 6"
    by (simp add: e(2))
  have cur: "unat (s_mcubesChunkIndex (tql_statics ?st)) = 0"
    by (simp add: initial_cursor)
  have c': "tq_chunkPointerArray sub = ringSlots 0 6"
    using c unfolding l6 cur .
  have batch: "\<exists>st' sub. twoQueuesBatch [0..<64::nat] 6 11 0 ?st = Inr (st', sub)
         \<and> tq_params sub = [0, 1, 2, 3, 4, 5]
         \<and> tq_chunkPointerArray sub = [1, 2, 3, 4, 5, 6]
         \<and> tq_chunkPointerArray sub = ringSlots 0 6
         \<and> tq_graphicsSignalTimelineValue sub = 1
         \<and> map timelineValue (g_mcubesChunkArray (tql_statics st'))
              = [0, 1, 1, 1, 1, 1, 1, 0, 0, 0, 0, 0]"
    by (intro exI conjI) (rule r e c')+
  from tf obtain s' subs where
    fr: "computeDrawCommandsTwoQueues ?g ?s = Inr (s', subs)"
    and ring: "concat (map tq_chunkPointerArray subs)
        = ringSlots (unat (s_mcubesChunkIndex ?s)) (length (getMcubesJobs ?g))"
    by blast
  have ring': "concat (map tq_chunkPointerArray subs) = ringSlots 0 64"
    using ring by (simp add: initial_cursor guiWith_def)
  have f: "map timelineValue (g_mcubesChunkArray s') = [10, 11, 11, 11, 11, 9, 9, 10, 10, 10, 10, 10]"
    "map tq_chunkPointerArray subs =
               [[1, 2, 3, 4, 5, 6], [7, 8, 9, 10, 11, 0], [1, 2, 3, 4, 5, 6], [7, 8, 9, 10, 11, 0],
                [1, 2, 3, 4, 5, 6], [7, 8, 9, 10, 11, 0], [1, 2, 3, 4, 5, 6], [7, 8, 9, 10, 11, 0],
                [1, 2, 3, 4, 5, 6], [7, 8, 9, 10, 11, 0], [1, 2, 3, 4]]"
    "map tq_graphicsSignalTimelineValue subs = [1, 2, 3, 4, 5, 6, 7, 8, 9, 10, 11]"
    using example_frame_64_timeline unfolding fr by simp_all
  have frame: "\<exists>s' subs. computeDrawCommandsTwoQueues ?g ?s = Inr (s', subs)
         \<and> concat (map tq_chunkPointerArray subs) = ringSlots 0 64
         \<and> map tq_chunkPointerArray subs =
               [[1, 2, 3, 4, 5, 6], [7, 8, 9, 10, 11, 0], [1, 2, 3, 4, 5, 6], [7, 8, 9, 10, 11, 0],
                [1, 2, 3, 4, 5, 6], [7, 8, 9, 10, 11, 0], [1, 2, 3, 4, 5, 6], [7, 8, 9, 10, 11, 0],
                [1, 2, 3, 4, 5, 6], [7, 8, 9, 10, 11, 0], [1, 2, 3, 4]]
         \<and> map tq_graphicsSignalTimelineValue subs = [1, 2, 3, 4, 5, 6, 7, 8, 9, 10, 11]
         \<and> map timelineValue (g_mcubesChunkArray s')
              = [10, 11, 11, 11, 11, 9, 9, 10, 10, 10, 10, 10]"
    by (intro exI conjI) (rule fr ring' f)+
  show ?thesis
    using h1 h2 h3 h4 batch frame by blast
qed

end
